theory Spec2Isabelle
  imports Complex_Main "HOL-Library.Log_Nat"
begin

section \<open>Memory, failures and the matrix concept\<close>

text \<open>
  The matrix classes of the header hold a pointer into a buffer of doubles and the
  generic algorithms work on such pointers, so the model has one store for all
  buffers: an address is a natural number counting doubles, pointer arithmetic is
  addition, and two objects alias exactly when their addresses meet. The value of a
  double is a real number, and the arithmetic of doubles rounds (see below); NaN and
  the infinities are not modelled. A \<open>size_t\<close> that counts or indexes the elements of
  a buffer is a natural number, since the buffer bounds it; the sums of caller-supplied
  sizes in the view constructors wrap at \<open>2 ^ 64\<close>.
\<close>

type_synonym heap = "nat \<Rightarrow> real"

text \<open>
  \<open>assert\<close> aborts the call: \<open>AssertionFailed h\<close> keeps the store as it was when the
  assertion failed. \<open>NoReturn\<close> is a pointer loop whose stride is zero while its
  condition holds: it never leaves.
\<close>

datatype failure = AssertionFailed heap | NoReturn

text \<open>
  What \<open>getData()\<close>, \<open>getRows()\<close>, \<open>getCols()\<close> and \<open>getLd()\<close> return: the matrix
  concept. All three classes are this record; for the owning class \<open>getLd()\<close> returns
  \<open>rows\<close>.
\<close>

record mat =
  getData :: nat
  getRows :: nat
  getCols :: nat
  getLd :: nat

definition Matrix :: "nat \<Rightarrow> nat \<Rightarrow> nat \<Rightarrow> mat" where
  "Matrix data_arg rows_arg cols_arg =
     \<lparr>getData = data_arg, getRows = rows_arg, getCols = cols_arg, getLd = rows_arg\<rparr>"

text \<open>\<open>M(i, j)\<close> is \<open>data[i + j*ld]\<close>: its address, and its value in a store.\<close>

definition addr :: "mat \<Rightarrow> nat \<Rightarrow> nat \<Rightarrow> nat" where
  "addr M i j = getData M + i + j * getLd M"

definition elem :: "mat \<Rightarrow> nat \<Rightarrow> nat \<Rightarrow> heap \<Rightarrow> real" where
  "elem M i j h = h (addr M i j)"

subsection \<open>The library calls\<close>

text \<open>
  \<open>memcpy(dst, src, n * sizeof(double))\<close>, \<open>std::fill_n(p, n, val)\<close> and
  \<open>std::swap(*p, *q)\<close>. \<open>memcpy\<close> is undefined on overlapping blocks; the model reads
  the source block in the store before the call, and the theorems about copied values
  assume that source and destination share no element.
\<close>

definition std_memcpy :: "nat \<Rightarrow> nat \<Rightarrow> nat \<Rightarrow> heap \<Rightarrow> heap" where
  "std_memcpy dst src n h = (\<lambda>x. if dst \<le> x \<and> x < dst + n then h (src + (x - dst)) else h x)"

definition std_fill_n :: "nat \<Rightarrow> nat \<Rightarrow> real \<Rightarrow> heap \<Rightarrow> heap" where
  "std_fill_n p n val h = (\<lambda>x. if p \<le> x \<and> x < p + n then val else h x)"

definition std_swap :: "nat \<Rightarrow> nat \<Rightarrow> heap \<Rightarrow> heap" where
  "std_swap p q h = h(p := h q, q := h p)"

text \<open>The assignment \<open>*p = *q\<close> of one double.\<close>

definition copy_double :: "nat \<Rightarrow> nat \<Rightarrow> heap \<Rightarrow> heap" where
  "copy_double p q h = h(p := h q)"

subsection \<open>Double arithmetic\<close>

text \<open>
  \<open>+\<close>, \<open>-\<close> and \<open>*\<close> on doubles give the exact result rounded to the nearest binary64
  number, ties to the even significand (each operation is evaluated in binary64, in
  the default rounding mode). The binary64 numbers around \<open>x\<close> are the
  multiples of \<open>2 ^ (e - 52)\<close>, where \<open>e\<close> is the larger of \<open>ilog2 |x|\<close> and \<open>-1022\<close>
  (so the subnormal numbers are spaced \<open>2 ^ -1074\<close> apart), and \<open>ilog2 x\<close> is
  \<open>\<lfloor>log\<^sub>2 x\<rfloor>\<close> for positive \<open>x\<close>, computed on integers. The exponent has no upper bound
  here: where the machine result is an infinity, \<open>round_double\<close> is a real number
  beyond the largest double, and both exceed every finite double. \<open>fabs\<close>, unary minus
  and the comparisons are exact.
\<close>

definition ilog2 :: "real \<Rightarrow> int" where
  "ilog2 x = (if 1 \<le> x then bitlen \<lfloor>x\<rfloor> - 1 else - bitlen (\<lceil>1 / x\<rceil> - 1))"

definition round_even :: "real \<Rightarrow> int" where
  "round_even y =
     (let f = \<lfloor>y\<rfloor> in
      if y - of_int f < 1 / 2 then f
      else if 1 / 2 < y - of_int f then f + 1
      else if even f then f else f + 1)"

definition round_double :: "real \<Rightarrow> real" where
  "round_double x =
     (if x = 0 then 0
      else (let e = max (ilog2 \<bar>x\<bar>) (- 1022); q = 2 powi (e - 52)
            in of_int (round_even (x / q)) * q))"

definition is_double :: "real \<Rightarrow> bool" where
  "is_double x \<longleftrightarrow> round_double x = x"

definition double_add :: "real \<Rightarrow> real \<Rightarrow> real" where
  "double_add x y = round_double (x + y)"

definition double_sub :: "real \<Rightarrow> real \<Rightarrow> real" where
  "double_sub x y = round_double (x - y)"

definition double_mul :: "real \<Rightarrow> real \<Rightarrow> real" where
  "double_mul x y = round_double (x * y)"

section \<open>The classes\<close>

subsection \<open>Matrix: template assignment\<close>

definition Matrix_assign :: "mat \<Rightarrow> mat \<Rightarrow> heap \<Rightarrow> failure + heap" where
  "Matrix_assign this arg h =
     (if getRows this = getRows arg \<and> getCols this = getCols arg
      then Inr (fold (\<lambda>j. std_memcpy (getData this + j * getRows this)
                                      (getData arg + j * getLd arg) (getRows this))
                     [0..<getCols this] h)
      else Inl (AssertionFailed h))"

subsection \<open>MatrixView and MatrixConstView\<close>

text \<open>
  The constructors from a matrix and a block of it. \<open>None\<close> is the failed assertion
  of the constructor (it touches no memory). The constructors from a raw pointer and
  the copy assignments are declared in the header and defined elsewhere.

  The assertion adds two \<open>size_t\<close> arguments of the caller before it compares them
  with the parent's size: \<open>row_offset + rows_arg <= arg.getRows()\<close>. Unsigned addition
  wraps, so the sum is taken modulo \<open>2 ^ 64\<close> (\<open>size_t\<close> is 64 bits wide), and a block
  whose size wraps the sum round passes the check.
\<close>

definition size_t_add :: "nat \<Rightarrow> nat \<Rightarrow> nat" where
  "size_t_add a b = (a + b) mod 2 ^ 64"

definition MatrixView :: "mat \<Rightarrow> nat \<Rightarrow> nat \<Rightarrow> nat \<Rightarrow> nat \<Rightarrow> mat option" where
  "MatrixView arg row_offset col_offset rows_arg cols_arg =
     (if row_offset < getRows arg \<and> size_t_add row_offset rows_arg \<le> getRows arg
         \<and> col_offset < getCols arg \<and> size_t_add col_offset cols_arg \<le> getCols arg
      then Some \<lparr>getData = getData arg + row_offset + col_offset * getLd arg,
                 getRows = rows_arg, getCols = cols_arg, getLd = getLd arg\<rparr>
      else None)"

definition MatrixConstView :: "mat \<Rightarrow> nat \<Rightarrow> nat \<Rightarrow> nat \<Rightarrow> nat \<Rightarrow> mat option" where
  "MatrixConstView arg row_offset col_offset rows_arg cols_arg =
     (if row_offset < getRows arg \<and> size_t_add row_offset rows_arg \<le> getRows arg
         \<and> col_offset < getCols arg \<and> size_t_add col_offset cols_arg \<le> getCols arg
      then Some \<lparr>getData = getData arg + row_offset + col_offset * getLd arg,
                 getRows = rows_arg, getCols = cols_arg, getLd = getLd arg\<rparr>
      else None)"

text \<open>
  \<open>MatrixView::setAll\<close>: \<open>for (p = data; p < data + cols*ld; p += ld) fill_n(p, rows, val)\<close>.
\<close>

function setAll_loop :: "nat \<Rightarrow> nat \<Rightarrow> nat \<Rightarrow> nat \<Rightarrow> real \<Rightarrow> heap \<Rightarrow> failure + heap" where
  "setAll_loop p e ld_arg rows_arg val h =
     (if p < e
      then (if ld_arg = 0 then Inl NoReturn
            else setAll_loop (p + ld_arg) e ld_arg rows_arg val (std_fill_n p rows_arg val h))
      else Inr h)"
  by pat_completeness auto
termination
  by (relation "measure (\<lambda>(p, e, ld_arg, rows_arg, val, h). e - p)") auto

declare setAll_loop.simps [simp del]

definition MatrixView_setAll :: "mat \<Rightarrow> real \<Rightarrow> heap \<Rightarrow> failure + heap" where
  "MatrixView_setAll this val h =
     setAll_loop (getData this) (getData this + getCols this * getLd this)
                 (getLd this) (getRows this) val h"

definition MatrixView_assign :: "mat \<Rightarrow> mat \<Rightarrow> heap \<Rightarrow> failure + heap" where
  "MatrixView_assign this arg h =
     (if getRows this = getRows arg \<and> getCols this = getCols arg
      then Inr (fold (\<lambda>j. std_memcpy (getData this + j * getLd this)
                                      (getData arg + j * getLd arg) (getRows this))
                     [0..<getCols this] h)
      else Inl (AssertionFailed h))"

section \<open>The generic algorithms (namespace mat)\<close>

text \<open>
  Modelled from the spec: the copy assignment operators
  \<open>Matrix::operator=(const Matrix &)\<close> and \<open>MatrixView::operator=(const MatrixView &)\<close>,
  declared in the header and defined elsewhere. \<open>a = b\<close> inside a template is the
  assignment operator of the class of \<open>a\<close>: the template operator above when \<open>b\<close> is of
  another class, the copy assignment when it is of the same class. The specification
  describes one assignment for all operands (equal dimensions or failure, then a copy
  column by column), so the copy assignment is taken to be the template operator. On
  the record the operators of the two classes are one function, because an owning
  matrix has \<open>getLd() = rows\<close> (lemma \<open>Matrix_assign_eq\<close> below).
\<close>

definition generic_assign :: "mat \<Rightarrow> mat \<Rightarrow> heap \<Rightarrow> failure + heap" where
  "generic_assign a b h = MatrixView_assign a b h"

definition col_copy :: "mat \<Rightarrow> nat \<Rightarrow> mat \<Rightarrow> nat \<Rightarrow> heap \<Rightarrow> failure + heap" where
  "col_copy src col_src dest col_dest h =
     (if getRows src = getRows dest \<and> col_src < getCols src \<and> col_dest < getCols dest
      then Inr (std_memcpy (getData dest + col_dest * getLd dest)
                           (getData src + col_src * getLd src) (getRows src) h)
      else Inl (AssertionFailed h))"

function row_copy_loop :: "nat \<Rightarrow> nat \<Rightarrow> nat \<Rightarrow> nat \<Rightarrow> nat \<Rightarrow> heap \<Rightarrow> failure + heap" where
  "row_copy_loop p1 p2 e src_ld dest_ld h =
     (if p1 < e
      then (if src_ld = 0 then Inl NoReturn
            else row_copy_loop (p1 + src_ld) (p2 + dest_ld) e src_ld dest_ld (copy_double p2 p1 h))
      else Inr h)"
  by pat_completeness auto
termination
  by (relation "measure (\<lambda>(p1, p2, e, src_ld, dest_ld, h). e - p1)") auto

declare row_copy_loop.simps [simp del]

definition row_copy :: "mat \<Rightarrow> nat \<Rightarrow> mat \<Rightarrow> nat \<Rightarrow> heap \<Rightarrow> failure + heap" where
  "row_copy src row_src dest row_dest h =
     (if getCols src = getCols dest \<and> row_src < getRows src \<and> row_dest < getRows dest
      then row_copy_loop (getData src + row_src) (getData dest + row_dest)
                         (getData src + getCols src * getLd src) (getLd src) (getLd dest) h
      else Inl (AssertionFailed h))"

text \<open>In-place transpose of a square matrix.\<close>

definition transpose_inplace :: "mat \<Rightarrow> heap \<Rightarrow> failure + heap" where
  "transpose_inplace M h =
     (if getRows M = getCols M
      then Inr (fold (\<lambda>i. fold (\<lambda>j. std_swap (addr M i j) (addr M j i)) [0..<i])
                     [0..<getRows M] h)
      else Inl (AssertionFailed h))"

subsection \<open>Element-wise arithmetic and the norm\<close>

text \<open>
  \<open>add\<close>, \<open>sub\<close> and \<open>negate\<close> are the same two nested pointer loops around one
  statement. With two operands the statement is \<open>*pp1++ op= *pp2++\<close>:
  \<^verbatim>\<open>
    while (p1 < m1.getData() + m1.getCols() * m1.getLd()) {
      pp1 = p1; pp2 = p2;
      while (pp1 < p1 + m1.getRows()) *pp1++ op= *pp2++;
      p1 += m1.getLd(); p2 += m2.getLd();
    }
  \<close>
  and with one operand it is \<open>*pp1++ += d\<close> or \<open>*pp = -*pp; pp++\<close>. The statement is
  the parameter \<open>f\<close>: the new value of \<open>*pp1\<close> from its old value (and \<open>*pp2\<close>).
\<close>

function binary_col :: "(real \<Rightarrow> real \<Rightarrow> real) \<Rightarrow> nat \<Rightarrow> nat \<Rightarrow> nat \<Rightarrow> heap \<Rightarrow> heap" where
  "binary_col f pp1 pp2 e h =
     (if pp1 < e then binary_col f (pp1 + 1) (pp2 + 1) e (h(pp1 := f (h pp1) (h pp2))) else h)"
  by pat_completeness auto
termination
  by (relation "measure (\<lambda>(f, pp1, pp2, e, h). e - pp1)") auto

declare binary_col.simps [simp del]

function binary_cols ::
  "(real \<Rightarrow> real \<Rightarrow> real) \<Rightarrow> nat \<Rightarrow> nat \<Rightarrow> nat \<Rightarrow> nat \<Rightarrow> nat \<Rightarrow> nat \<Rightarrow> heap \<Rightarrow> failure + heap" where
  "binary_cols f p1 p2 e rows_arg ld1 ld2 h =
     (if p1 < e
      then (if ld1 = 0 then Inl NoReturn
            else binary_cols f (p1 + ld1) (p2 + ld2) e rows_arg ld1 ld2
                   (binary_col f p1 p2 (p1 + rows_arg) h))
      else Inr h)"
  by pat_completeness auto
termination
  by (relation "measure (\<lambda>(f, p1, p2, e, rows_arg, ld1, ld2, h). e - p1)") auto

declare binary_cols.simps [simp del]

function unary_col :: "(real \<Rightarrow> real) \<Rightarrow> nat \<Rightarrow> nat \<Rightarrow> heap \<Rightarrow> heap" where
  "unary_col f pp e h = (if pp < e then unary_col f (pp + 1) e (h(pp := f (h pp))) else h)"
  by pat_completeness auto
termination
  by (relation "measure (\<lambda>(f, pp, e, h). e - pp)") auto

declare unary_col.simps [simp del]

function unary_cols :: "(real \<Rightarrow> real) \<Rightarrow> nat \<Rightarrow> nat \<Rightarrow> nat \<Rightarrow> nat \<Rightarrow> heap \<Rightarrow> failure + heap" where
  "unary_cols f p e rows_arg ld_arg h =
     (if p < e
      then (if ld_arg = 0 then Inl NoReturn
            else unary_cols f (p + ld_arg) e rows_arg ld_arg (unary_col f p (p + rows_arg) h))
      else Inr h)"
  by pat_completeness auto
termination
  by (relation "measure (\<lambda>(f, p, e, rows_arg, ld_arg, h). e - p)") auto

declare unary_cols.simps [simp del]

text \<open>\<open>m1 = m1 + m2\<close>\<close>

definition add :: "mat \<Rightarrow> mat \<Rightarrow> heap \<Rightarrow> failure + heap" where
  "add m1 m2 h =
     (if getRows m1 = getRows m2 \<and> getCols m1 = getCols m2
      then binary_cols double_add (getData m1) (getData m2)
             (getData m1 + getCols m1 * getLd m1) (getRows m1) (getLd m1) (getLd m2) h
      else Inl (AssertionFailed h))"

text \<open>\<open>m1 = m1 + number\<close>\<close>

definition add_scalar :: "mat \<Rightarrow> real \<Rightarrow> heap \<Rightarrow> failure + heap" where
  "add_scalar m1 d h =
     unary_cols (\<lambda>x. double_add x d) (getData m1) (getData m1 + getCols m1 * getLd m1)
       (getRows m1) (getLd m1) h"

text \<open>\<open>m1 = m1 - m2\<close>\<close>

definition sub :: "mat \<Rightarrow> mat \<Rightarrow> heap \<Rightarrow> failure + heap" where
  "sub m1 m2 h =
     (if getRows m1 = getRows m2 \<and> getCols m1 = getCols m2
      then binary_cols double_sub (getData m1) (getData m2)
             (getData m1 + getCols m1 * getLd m1) (getRows m1) (getLd m1) (getLd m2) h
      else Inl (AssertionFailed h))"

text \<open>\<open>m1 = m1 - number\<close> is \<open>add(m1, -1.0*d)\<close>.\<close>

definition sub_scalar :: "mat \<Rightarrow> real \<Rightarrow> heap \<Rightarrow> failure + heap" where
  "sub_scalar m1 d h = add_scalar m1 (double_mul (- 1) d) h"

text \<open>\<open>m = -m\<close>\<close>

definition negate :: "mat \<Rightarrow> heap \<Rightarrow> failure + heap" where
  "negate m h =
     unary_cols (\<lambda>x. - x) (getData m) (getData m + getCols m * getLd m)
       (getRows m) (getLd m) h"

text \<open>The infinity norm: \<open>if (fabs(*pp) > nrm) nrm = fabs(*pp); pp++\<close> in the same loops.\<close>

function nrminf_col :: "nat \<Rightarrow> nat \<Rightarrow> real \<Rightarrow> heap \<Rightarrow> real" where
  "nrminf_col pp e nrm h =
     (if pp < e then nrminf_col (pp + 1) e (if \<bar>h pp\<bar> > nrm then \<bar>h pp\<bar> else nrm) h else nrm)"
  by pat_completeness auto
termination
  by (relation "measure (\<lambda>(pp, e, nrm, h). e - pp)") auto

declare nrminf_col.simps [simp del]

function nrminf_cols :: "nat \<Rightarrow> nat \<Rightarrow> nat \<Rightarrow> nat \<Rightarrow> real \<Rightarrow> heap \<Rightarrow> failure + real" where
  "nrminf_cols p e rows_arg ld_arg nrm h =
     (if p < e
      then (if ld_arg = 0 then Inl NoReturn
            else nrminf_cols (p + ld_arg) e rows_arg ld_arg (nrminf_col p (p + rows_arg) nrm h) h)
      else Inr nrm)"
  by pat_completeness auto
termination
  by (relation "measure (\<lambda>(p, e, rows_arg, ld_arg, nrm, h). e - p)") auto

declare nrminf_cols.simps [simp del]

definition nrminf :: "mat \<Rightarrow> heap \<Rightarrow> failure + real" where
  "nrminf m h =
     nrminf_cols (getData m) (getData m + getCols m * getLd m) (getRows m) (getLd m) 0 h"

subsection \<open>isDiff\<close>

text \<open>
  The inner loop is \<open>if (fabs(*pp1++ - *pp2++) > tol) return true\<close>: it returns from the
  function at the first pair whose difference, subtracted in doubles, is larger than
  \<open>tol\<close> in absolute value.
\<close>

function isDiff_col :: "nat \<Rightarrow> nat \<Rightarrow> nat \<Rightarrow> real \<Rightarrow> heap \<Rightarrow> bool" where
  "isDiff_col pp1 pp2 e tol h =
     (if pp1 < e
      then (if \<bar>double_sub (h pp1) (h pp2)\<bar> > tol then True
            else isDiff_col (pp1 + 1) (pp2 + 1) e tol h)
      else False)"
  by pat_completeness auto
termination
  by (relation "measure (\<lambda>(pp1, pp2, e, tol, h). e - pp1)") auto

declare isDiff_col.simps [simp del]

function isDiff_cols ::
  "nat \<Rightarrow> nat \<Rightarrow> nat \<Rightarrow> nat \<Rightarrow> nat \<Rightarrow> nat \<Rightarrow> real \<Rightarrow> heap \<Rightarrow> failure + bool" where
  "isDiff_cols p1 p2 e rows_arg ld1 ld2 tol h =
     (if p1 < e
      then (if isDiff_col p1 p2 (p1 + rows_arg) tol h then Inr True
            else if ld1 = 0 then Inl NoReturn
            else isDiff_cols (p1 + ld1) (p2 + ld2) e rows_arg ld1 ld2 tol h)
      else Inr False)"
  by pat_completeness auto
termination
  by (relation "measure (\<lambda>(p1, p2, e, rows_arg, ld1, ld2, tol, h). e - p1)") auto

declare isDiff_cols.simps [simp del]

definition isDiff :: "mat \<Rightarrow> mat \<Rightarrow> real \<Rightarrow> heap \<Rightarrow> failure + bool" where
  "isDiff m1 m2 tol h =
     (if getRows m2 = getRows m1 \<and> getCols m2 = getCols m1
      then isDiff_cols (getData m1) (getData m2) (getData m1 + getCols m1 * getLd m1)
             (getRows m1) (getLd m1) (getLd m2) tol h
      else Inl (AssertionFailed h))"

subsection \<open>Assignment by index vectors\<close>

text \<open>
  Each of the three functions treats every index vector \<open>v\<close> of a matrix with \<open>count\<close>
  rows (or columns) by the same lines:
  \<^verbatim>\<open>
    if (v.size() == 0) {
        n = count; tmp.reserve(n);
        for (size_t i = 0; i < n; ++i) tmp[i] = i;
        vp = &tmp;
    } else {
        for (size_t i = 0; i < v.size(); ++i) { assert(v[i] < count); n++; }
        assert(n <= count);
        vp = &v;
    }
  \<close>
  \<open>index_vector v count\<close> is the vector \<open>*vp\<close> (and \<open>n\<close> its length), or \<open>None\<close> when one
  of the two assertions fails. No memory of a matrix is touched. (\<open>reserve\<close> leaves the
  size of \<open>tmp\<close> at 0; the writes \<open>tmp[i] = i\<close> and the later reads \<open>(*vp)[j]\<close> stay
  within the reserved capacity, and the model reads back what was written.)
\<close>

definition index_vector :: "nat list \<Rightarrow> nat \<Rightarrow> nat list option" where
  "index_vector v count =
     (if length v = 0 then Some (map (\<lambda>i. i) [0..<count])
      else if list_all (\<lambda>x. x < count) v \<and> length v \<le> count then Some v
      else None)"

text \<open>A \<open>for\<close> loop over \<open>ks\<close> whose body may abort: the first failure ends the call.\<close>

fun for_each :: "(nat \<Rightarrow> heap \<Rightarrow> failure + heap) \<Rightarrow> nat list \<Rightarrow> heap \<Rightarrow> failure + heap" where
  "for_each body [] h = Inr h"
| "for_each body (k # ks) h =
     (case body k h of Inl err \<Rightarrow> Inl err | Inr h' \<Rightarrow> for_each body ks h')"

definition reorderColumnsByVectors ::
  "mat \<Rightarrow> nat list \<Rightarrow> mat \<Rightarrow> nat list \<Rightarrow> heap \<Rightarrow> failure + heap" where
  "reorderColumnsByVectors a vToCols b vcols h =
     (if getRows b \<noteq> getRows a then Inl (AssertionFailed h)
      else if length vToCols = 0 \<and> length vcols = 0 then generic_assign a b h
      else
        (case index_vector vToCols (getCols a) of
           None \<Rightarrow> Inl (AssertionFailed h)
         | Some vpToCols \<Rightarrow>
        (case index_vector vcols (getCols b) of
           None \<Rightarrow> Inl (AssertionFailed h)
         | Some vpCols \<Rightarrow>
             (let toncols = length vpToCols; ncols = length vpCols in
              if toncols = ncols \<and> ncols > 0
              then for_each (\<lambda>j. col_copy b (vpCols ! j) a (vpToCols ! j)) [0..<ncols] h
              else Inl (AssertionFailed h)))))"

definition reorderRowsByVectors ::
  "mat \<Rightarrow> nat list \<Rightarrow> mat \<Rightarrow> nat list \<Rightarrow> heap \<Rightarrow> failure + heap" where
  "reorderRowsByVectors a vToRows b vrows h =
     (if getCols b \<noteq> getCols a then Inl (AssertionFailed h)
      else if length vToRows = 0 \<and> length vrows = 0 then generic_assign a b h
      else
        (case index_vector vToRows (getRows a) of
           None \<Rightarrow> Inl (AssertionFailed h)
         | Some vpToRows \<Rightarrow>
        (case index_vector vrows (getRows b) of
           None \<Rightarrow> Inl (AssertionFailed h)
         | Some vpRows \<Rightarrow>
             (let tonrows = length vpToRows; nrows = length vpRows in
              if tonrows = nrows \<and> nrows > 0
              then for_each (\<lambda>i. row_copy b (vpRows ! i) a (vpToRows ! i)) [0..<nrows] h
              else Inl (AssertionFailed h)))))"

definition assignByVectors ::
  "mat \<Rightarrow> nat list \<Rightarrow> nat list \<Rightarrow> mat \<Rightarrow> nat list \<Rightarrow> nat list \<Rightarrow> heap \<Rightarrow> failure + heap" where
  "assignByVectors a vToRows vToCols b vrows vcols h =
     (if length vToRows = 0 \<and> length vToCols = 0 \<and> length vrows = 0 \<and> length vcols = 0
      then generic_assign a b h
      else if length vToRows = 0 \<and> length vrows = 0
      then reorderColumnsByVectors a vToCols b vcols h
      else if length vToCols = 0 \<and> length vcols = 0
      then reorderRowsByVectors a vToRows b vrows h
      else
        (case index_vector vToRows (getRows a) of
           None \<Rightarrow> Inl (AssertionFailed h)
         | Some vpToRows \<Rightarrow>
        (case index_vector vToCols (getCols a) of
           None \<Rightarrow> Inl (AssertionFailed h)
         | Some vpToCols \<Rightarrow>
        (case index_vector vrows (getRows b) of
           None \<Rightarrow> Inl (AssertionFailed h)
         | Some vpRows \<Rightarrow>
        (case index_vector vcols (getCols b) of
           None \<Rightarrow> Inl (AssertionFailed h)
         | Some vpCols \<Rightarrow>
             (let tonrows = length vpToRows; toncols = length vpToCols;
                  nrows = length vpRows; ncols = length vpCols in
              if tonrows = nrows \<and> toncols = ncols \<and> nrows * ncols > 0
              then Inr (fold (\<lambda>i. fold (\<lambda>j. copy_double (addr a (vpToRows ! i) (vpToCols ! j))
                                                        (addr b (vpRows ! i) (vpCols ! j)))
                                       [0..<ncols])
                             [0..<nrows] h)
              else Inl (AssertionFailed h)))))))"

section \<open>Notions of the specification\<close>

text \<open>
  The addresses of the elements of a matrix, column by column, and the set of them.
  Between two columns of a block of a larger matrix lie \<open>getLd M - getRows M\<close>
  addresses that are not in this list: the padding.
\<close>

definition view_addrs :: "mat \<Rightarrow> nat list" where
  "view_addrs M = concat (map (\<lambda>j. map (\<lambda>i. addr M i j) [0..<getRows M]) [0..<getCols M])"

definition in_view :: "mat \<Rightarrow> nat set" where
  "in_view M = set (view_addrs M)"

text \<open>
  The addresses a column traversal visits: \<open>r\<close> addresses from each \<open>p + k * stride\<close>
  that lies before \<open>e\<close>. This is what the loops
  \<open>while (p < e) { for pp in [p, p + r) ...; p += stride; }\<close> go through.
\<close>

definition visited :: "nat \<Rightarrow> nat \<Rightarrow> nat \<Rightarrow> nat \<Rightarrow> nat set" where
  "visited p e stride r =
     {x. \<exists>k. p + k * stride < e \<and> p + k * stride \<le> x \<and> x < p + k * stride + r}"

text \<open>
  A column holds at most \<open>ld\<close> elements, so that two elements of the matrix are never
  at one address. The owning class has \<open>ld = rows\<close>; a block made by the view
  constructors inherits the property from its parent.
\<close>

definition columns_apart :: "mat \<Rightarrow> bool" where
  "columns_apart M = (getRows M \<le> getLd M)"

text \<open>The values of a matrix read through \<open>M(i, j)\<close>, column by column and row by row.\<close>

definition column_major :: "mat \<Rightarrow> heap \<Rightarrow> real list" where
  "column_major M h = concat (map (\<lambda>j. map (\<lambda>i. elem M i j h) [0..<getRows M]) [0..<getCols M])"

definition row_major :: "mat \<Rightarrow> heap \<Rightarrow> real list" where
  "row_major M h = concat (map (\<lambda>i. map (\<lambda>j. elem M i j h) [0..<getCols M]) [0..<getRows M])"

text \<open>
  The preconditions the specification states for \<open>reorderColumnsByVectors\<close>: an empty
  list stands for all indices of its side, the two lists are equally long, every index
  is within its matrix.
\<close>

definition expanded :: "nat list \<Rightarrow> nat \<Rightarrow> nat list" where
  "expanded v count = (if v = [] then [0..<count] else v)"

definition indices_ok :: "nat list \<Rightarrow> nat \<Rightarrow> bool" where
  "indices_ok v count = list_all (\<lambda>x. x < count) v"

section \<open>Addresses\<close>

lemma addr_inj:
  assumes "columns_apart M" "i < getRows M" "i' < getRows M" "addr M i j = addr M i' j'"
  shows "i = i' \<and> j = j'"
proof -
  let ?l = "getLd M"
  have il: "i < ?l" "i' < ?l" using assms by (auto simp: columns_apart_def)
  have e: "i + j * ?l = i' + j' * ?l" using assms(4) by (simp add: addr_def)
  have "(i + j * ?l) mod ?l = i" "(i' + j' * ?l) mod ?l = i'" using il by simp_all
  with e have i: "i = i'" by metis
  have "(i + j * ?l) div ?l = j" "(i' + j' * ?l) div ?l = j'" using il by simp_all
  with e have "j = j'" by metis
  with i show ?thesis by simp
qed

lemma in_view_iff:
  "x \<in> in_view M \<longleftrightarrow> (\<exists>i j. i < getRows M \<and> j < getCols M \<and> x = addr M i j)"
  by (fastforce simp: in_view_def view_addrs_def)

lemma in_viewI: "i < getRows M \<Longrightarrow> j < getCols M \<Longrightarrow> addr M i j \<in> in_view M"
  unfolding in_view_iff by blast

lemma card_in_view:
  assumes "columns_apart M"
  shows "card (in_view M) = getRows M * getCols M"
proof -
  let ?A = "{..<getRows M} \<times> {..<getCols M}"
  let ?f = "\<lambda>p. addr M (fst p) (snd p)"
  have eq: "in_view M = ?f ` ?A"
  proof (rule set_eqI)
    fix x
    show "x \<in> in_view M \<longleftrightarrow> x \<in> ?f ` ?A"
    proof
      assume "x \<in> in_view M"
      then obtain i j where "i < getRows M" "j < getCols M" "x = addr M i j"
        unfolding in_view_iff by blast
      then have "(i, j) \<in> ?A" "x = ?f (i, j)" by simp_all
      then show "x \<in> ?f ` ?A" by (rule_tac image_eqI)
    next
      assume "x \<in> ?f ` ?A"
      then obtain p where "p \<in> ?A" "x = ?f p" by blast
      then show "x \<in> in_view M"
        by (cases p) (simp add: in_viewI)
    qed
  qed
  have "inj_on ?f ?A"
  proof (rule inj_onI)
    fix p q assume "p \<in> ?A" "q \<in> ?A" "?f p = ?f q"
    then have "fst p < getRows M" "fst q < getRows M"
        "addr M (fst p) (snd p) = addr M (fst q) (snd q)"
      by auto
    then have "fst p = fst q \<and> snd p = snd q"
      by (rule addr_inj [OF assms])
    then show "p = q" by (simp add: prod_eq_iff)
  qed
  then have "card (?f ` ?A) = card ?A" by (rule card_image)
  then show ?thesis unfolding eq by simp
qed

lemma column_range_iff:
  "(\<exists>k. k < getCols M \<and> getData M + k * getLd M \<le> x \<and> x < getData M + k * getLd M + getRows M)
     \<longleftrightarrow> x \<in> in_view M"
proof
  assume "\<exists>k. k < getCols M \<and> getData M + k * getLd M \<le> x \<and> x < getData M + k * getLd M + getRows M"
  then obtain k where k: "k < getCols M" "getData M + k * getLd M \<le> x"
     "x < getData M + k * getLd M + getRows M" by blast
  then have "x - (getData M + k * getLd M) < getRows M"
     "x = getData M + (x - (getData M + k * getLd M)) + k * getLd M" by auto
  with k(1) show "x \<in> in_view M"
    unfolding in_view_iff addr_def by blast
next
  assume "x \<in> in_view M"
  then obtain i j where "i < getRows M" "j < getCols M" "x = getData M + i + j * getLd M"
    by (auto simp: in_view_iff addr_def)
  then have "j < getCols M \<and> getData M + j * getLd M \<le> x \<and> x < getData M + j * getLd M + getRows M"
    by simp
  then show "\<exists>k. k < getCols M \<and> getData M + k * getLd M \<le> x \<and> x < getData M + k * getLd M + getRows M"
    by blast
qed

lemma visited_done: "\<not> p < e \<Longrightarrow> visited p e stride r = {}"
  by (auto simp: visited_def)

lemma visited_step:
  assumes "p < e"
  shows "visited p e stride r = {p..<p + r} \<union> visited (p + stride) e stride r"
proof (rule set_eqI)
  fix x
  show "x \<in> visited p e stride r \<longleftrightarrow> x \<in> {p..<p + r} \<union> visited (p + stride) e stride r"
  proof
    assume "x \<in> visited p e stride r"
    then obtain k where k: "p + k * stride < e" "p + k * stride \<le> x" "x < p + k * stride + r"
      unfolding visited_def by blast
    show "x \<in> {p..<p + r} \<union> visited (p + stride) e stride r"
    proof (cases k)
      case 0
      with k show ?thesis by simp
    next
      case (Suc k')
      with k have "p + stride + k' * stride < e \<and> p + stride + k' * stride \<le> x
                \<and> x < p + stride + k' * stride + r" by (simp add: add.assoc)
      then have "x \<in> visited (p + stride) e stride r" unfolding visited_def by blast
      then show ?thesis by simp
    qed
  next
    assume "x \<in> {p..<p + r} \<union> visited (p + stride) e stride r"
    then show "x \<in> visited p e stride r"
    proof
      assume "x \<in> {p..<p + r}"
      with assms have "p + 0 * stride < e \<and> p + 0 * stride \<le> x \<and> x < p + 0 * stride + r" by simp
      then show ?thesis unfolding visited_def by blast
    next
      assume "x \<in> visited (p + stride) e stride r"
      then obtain k where "p + stride + k * stride < e" "p + stride + k * stride \<le> x"
        "x < p + stride + k * stride + r" unfolding visited_def by blast
      then have "p + Suc k * stride < e \<and> p + Suc k * stride \<le> x \<and> x < p + Suc k * stride + r"
        by (simp add: add.assoc)
      then show ?thesis unfolding visited_def by blast
    qed
  qed
qed

lemma visited_ge: "x \<in> visited p e stride r \<Longrightarrow> p \<le> x"
  by (auto simp: visited_def)

lemma visited_in_view:
  assumes "0 < getLd M \<or> getCols M = 0"
  shows "visited (getData M) (getData M + getCols M * getLd M) (getLd M) (getRows M) = in_view M"
proof (rule set_eqI)
  fix x
  have "(\<exists>k. getData M + k * getLd M < getData M + getCols M * getLd M
           \<and> getData M + k * getLd M \<le> x \<and> x < getData M + k * getLd M + getRows M)
        \<longleftrightarrow> x \<in> in_view M"
    using assms column_range_iff [of M x] by auto
  then show "x \<in> visited (getData M) (getData M + getCols M * getLd M) (getLd M) (getRows M)
             \<longleftrightarrow> x \<in> in_view M"
    by (simp add: visited_def)
qed

lemma finite_visited: "finite (visited p e stride r)"
proof (rule finite_subset)
  show "visited p e stride r \<subseteq> {..<e + r}" by (auto simp: visited_def)
qed simp

section \<open>Reading a block through a view\<close>

text \<open>
  C3 (amended). Let \<open>M\<close> be a 4 by 4 owning matrix with \<open>M(i,j) = i + 4j\<close>. The view of
  \<open>M\<close> at row offset 1 and column offset 0 with 2 rows and 3 columns (rows 1 and 2,
  columns 0 to 2) is constructed, and its six elements are 1, 5, 9, 2, 6, 10 when they
  are read row by row; read column by column (column-major order) they are
  1, 2, 5, 6, 9, 10.
\<close>

theorem view_block_reads:
  assumes "\<forall>i<4. \<forall>j<4. elem (Matrix d 4 4) i j h = real i + 4 * real j"
  shows "\<exists>V. MatrixConstView (Matrix d 4 4) 1 0 2 3 = Some V
           \<and> row_major V h = [1, 5, 9, 2, 6, 10]
           \<and> column_major V h = [1, 2, 5, 6, 9, 10]"
proof -
  have e: "h (d + i + j * 4) = real i + 4 * real j" if "i < 4" "j < 4" for i j
    using assms that by (simp add: elem_def addr_def Matrix_def)
  have "h (d + 1 + 0 * 4) = 1" "h (d + 2 + 0 * 4) = 2" "h (d + 1 + 1 * 4) = 5"
       "h (d + 2 + 1 * 4) = 6" "h (d + 1 + 2 * 4) = 9" "h (d + 2 + 2 * 4) = 10"
    by (subst e; simp)+
  then show ?thesis
    by (simp add: MatrixConstView_def size_t_add_def Matrix_def row_major_def
                  column_major_def elem_def addr_def upt_rec add.assoc)
qed

theorem view_block_reads_witness:
  "\<exists>V. MatrixConstView (Matrix 0 4 4) 1 0 2 3 = Some V
         \<and> row_major V (\<lambda>a. real a) = [1, 5, 9, 2, 6, 10]
         \<and> column_major V (\<lambda>a. real a) = [1, 2, 5, 6, 9, 10]"
  using view_block_reads [of 0 "\<lambda>a. real a"]
  by (simp add: elem_def addr_def Matrix_def)

text \<open>
  The claim as stated fails: with the matrix at address 0 and the store holding
  \<open>i + 4j\<close> at \<open>M(i,j)\<close>, neither six-element view at offset (1, 0), 2 by 3 or 3 by 2,
  reads 1, 5, 9, 2, 6, 10 in column-major order.
\<close>

theorem view_block_column_major_counterexample:
  "list_all (\<lambda>i. list_all (\<lambda>j. elem (Matrix 0 4 4) i j (\<lambda>a. real a) = real i + 4 * real j)
                           [0..<4]) [0..<4]
   \<and> MatrixConstView (Matrix 0 4 4) 1 0 2 3
       = Some \<lparr>getData = 1, getRows = 2, getCols = 3, getLd = 4\<rparr>
   \<and> column_major \<lparr>getData = 1, getRows = 2, getCols = 3, getLd = 4\<rparr> (\<lambda>a. real a)
       \<noteq> [1, 5, 9, 2, 6, 10]
   \<and> MatrixConstView (Matrix 0 4 4) 1 0 3 2
       = Some \<lparr>getData = 1, getRows = 3, getCols = 2, getLd = 4\<rparr>
   \<and> column_major \<lparr>getData = 1, getRows = 3, getCols = 2, getLd = 4\<rparr> (\<lambda>a. real a)
       \<noteq> [1, 5, 9, 2, 6, 10]"
  by (simp add: MatrixConstView_def size_t_add_def Matrix_def column_major_def elem_def
                addr_def upt_rec)

section \<open>Filling a view\<close>

lemma setAll_loop_result:
  assumes "0 < ld_arg \<or> e \<le> p"
  shows "setAll_loop p e ld_arg r v h
         = Inr (\<lambda>x. if x \<in> visited p e ld_arg r then v else h x)"
  using assms
proof (induction p e ld_arg r v h rule: setAll_loop.induct)
  case (1 p e ld_arg r v h)
  show ?case
  proof (cases "p < e")
    case False
    then show ?thesis by (subst setAll_loop.simps) (simp add: visited_done)
  next
    case True
    with "1.prems" have pos: "0 < ld_arg" by simp
    let ?h1 = "std_fill_n p r v h"
    have ih: "setAll_loop (p + ld_arg) e ld_arg r v ?h1
              = Inr (\<lambda>x. if x \<in> visited (p + ld_arg) e ld_arg r then v else ?h1 x)"
      using "1.IH" [OF True] pos by simp
    have "(\<lambda>x. if x \<in> visited (p + ld_arg) e ld_arg r then v else ?h1 x)
          = (\<lambda>x. if x \<in> visited p e ld_arg r then v else h x)"
      by (rule ext) (simp add: visited_step [OF True] std_fill_n_def)
    with ih True pos show ?thesis by (subst setAll_loop.simps) simp
  qed
qed

lemma MatrixView_setAll_result:
  assumes "0 < getLd V \<or> getCols V = 0"
  shows "MatrixView_setAll V v h = Inr (\<lambda>x. if x \<in> in_view V then v else h x)"
proof -
  have "0 < getLd V \<or> getData V + getCols V * getLd V \<le> getData V"
    using assms by auto
  then show ?thesis
    unfolding MatrixView_setAll_def using assms
    by (simp add: setAll_loop_result visited_in_view)
qed

text \<open>
  C5. Let \<open>V\<close> be the view constructed at \<open>(row_offset, col_offset, rows, cols)\<close> over a
  parent \<open>P\<close> whose columns are apart (an owning matrix, or a view of one), where
  neither \<open>row_offset + rows\<close> nor \<open>col_offset + cols\<close> overflows \<open>size_t\<close>. Then
  \<open>V.setAll(v)\<close> returns, and afterwards \<open>P(row_offset + i, col_offset + j) = v\<close> for
  every \<open>(i, j)\<close> of the view, every element of \<open>P\<close> outside the block has the value
  it had, no address outside the \<open>rows * cols\<close> addresses of the view has changed (the
  padding between the columns of the view is not written), and these addresses are
  \<open>rows * cols\<close> many.
\<close>

theorem setAll_view:
  assumes "columns_apart P" and "MatrixView P ro co r c = Some V"
    and "ro + r < 2 ^ 64" and "co + c < 2 ^ 64"
  shows "\<exists>h'. MatrixView_setAll V v h = Inr h'
           \<and> (\<forall>i<r. \<forall>j<c. elem P (ro + i) (co + j) h' = v)
           \<and> (\<forall>i<getRows P. \<forall>j<getCols P.
                 \<not> (ro \<le> i \<and> i < ro + r \<and> co \<le> j \<and> j < co + c)
                 \<longrightarrow> elem P i j h' = elem P i j h)
           \<and> (\<forall>x. x \<notin> in_view V \<longrightarrow> h' x = h x)
           \<and> card (in_view V) = r * c"
proof -
  from assms(3,4) have nowrap: "size_t_add ro r = ro + r" "size_t_add co c = co + c"
    by (simp_all add: size_t_add_def)
  from assms(2) have bounds: "ro < getRows P" "ro + r \<le> getRows P" "co < getCols P"
      "co + c \<le> getCols P"
    and V: "V = \<lparr>getData = getData P + ro + co * getLd P, getRows = r, getCols = c,
                  getLd = getLd P\<rparr>"
    by (auto simp: MatrixView_def nowrap split: if_splits)
  have ldpos: "0 < getLd V" using bounds(1) assms(1) by (simp add: V columns_apart_def)
  have apartV: "columns_apart V"
    using bounds(2) assms(1) by (simp add: V columns_apart_def)
  have addrV: "addr V i j = addr P (ro + i) (co + j)" for i j
    by (simp add: V addr_def algebra_simps)
  let ?h' = "\<lambda>x. if x \<in> in_view V then v else h x"
  have res: "MatrixView_setAll V v h = Inr ?h'"
    using ldpos by (simp add: MatrixView_setAll_result)
  have inside: "elem P (ro + i) (co + j) ?h' = v" if "i < r" "j < c" for i j
  proof -
    have "addr V i j \<in> in_view V"
      using that by (intro in_viewI) (simp_all add: V)
    then have "addr P (ro + i) (co + j) \<in> in_view V"
      by (simp add: addrV)
    then show ?thesis by (simp add: elem_def)
  qed
  have outside: "elem P i j ?h' = elem P i j h"
    if "i < getRows P" "j < getCols P" "\<not> (ro \<le> i \<and> i < ro + r \<and> co \<le> j \<and> j < co + c)" for i j
  proof -
    have "addr P i j \<notin> in_view V"
    proof
      assume "addr P i j \<in> in_view V"
      then obtain i' j' where ij: "i' < r" "j' < c" "addr P i j = addr V i' j'"
        by (auto simp: in_view_iff V)
      then have "addr P i j = addr P (ro + i') (co + j')" by (simp add: addrV)
      moreover have "ro + i' < getRows P" using ij(1) bounds(2) by simp
      ultimately have "i = ro + i' \<and> j = co + j'"
        using addr_inj [OF assms(1) that(1)] by blast
      with ij that(3) show False by simp
    qed
    then show ?thesis by (simp add: elem_def)
  qed
  have "card (in_view V) = r * c"
    using card_in_view [OF apartV] by (simp add: V)
  with res inside outside show ?thesis by simp
qed

theorem setAll_view_witness:
  "columns_apart (Matrix 0 3 3)
   \<and> MatrixView (Matrix 0 3 3) 1 1 2 2 = Some \<lparr>getData = 4, getRows = 2, getCols = 2, getLd = 3\<rparr>
   \<and> (1 :: nat) + 2 < 2 ^ 64
   \<and> (\<exists>h'. MatrixView_setAll \<lparr>getData = 4, getRows = 2, getCols = 2, getLd = 3\<rparr> 7 (\<lambda>x. 0) = Inr h'
          \<and> elem (Matrix 0 3 3) 1 1 h' = 7 \<and> elem (Matrix 0 3 3) 2 1 h' = 7
          \<and> elem (Matrix 0 3 3) 1 2 h' = 7 \<and> elem (Matrix 0 3 3) 2 2 h' = 7
          \<and> elem (Matrix 0 3 3) 0 0 h' = 0 \<and> elem (Matrix 0 3 3) 0 2 h' = 0
          \<and> elem (Matrix 0 3 3) 2 0 h' = 0
          \<and> card (in_view \<lparr>getData = 4, getRows = 2, getCols = 2, getLd = 3\<rparr>) = 4)"
proof -
  let ?P = "Matrix 0 3 3"
  let ?V = "\<lparr>getData = 4, getRows = 2, getCols = 2, getLd = 3\<rparr>"
  have a: "columns_apart ?P" by (simp add: columns_apart_def Matrix_def)
  have b: "MatrixView ?P 1 1 2 2 = Some ?V"
    by (simp add: MatrixView_def size_t_add_def Matrix_def)
  have n: "(1 :: nat) + 2 < 2 ^ 64" by simp
  from setAll_view [OF a b n n, of 7 "\<lambda>x. 0"] obtain h' where
    r: "MatrixView_setAll ?V 7 (\<lambda>x. 0) = Inr h'"
    and i: "\<forall>i<2. \<forall>j<2. elem ?P (1 + i) (1 + j) h' = 7"
    and o: "\<forall>i<getRows ?P. \<forall>j<getCols ?P.
                 \<not> (1 \<le> i \<and> i < 1 + 2 \<and> 1 \<le> j \<and> j < 1 + 2)
                 \<longrightarrow> elem ?P i j h' = elem ?P i j (\<lambda>x. 0)"
    and c: "card (in_view ?V) = 2 * 2"
    by blast
  have "elem ?P 1 1 h' = 7" "elem ?P 2 1 h' = 7" "elem ?P 1 2 h' = 7" "elem ?P 2 2 h' = 7"
    using i [rule_format, of 0 0] i [rule_format, of 1 0] i [rule_format, of 0 1]
      i [rule_format, of 1 1] by (simp_all add: numeral_2_eq_2)
  moreover have "elem ?P 0 0 h' = 0" "elem ?P 0 2 h' = 0" "elem ?P 2 0 h' = 0"
    using o [rule_format, of 0 0] o [rule_format, of 0 2] o [rule_format, of 2 0]
    by (simp_all add: Matrix_def elem_def)
  ultimately show ?thesis using a b r c by simp
qed

text \<open>
  The two bounds on the sums cannot be dropped. At row offset 1 of a 3 by 4 matrix a
  block of \<open>2 ^ 64 - 1\<close> rows passes the assertion of the constructor, since
  \<open>1 + (2 ^ 64 - 1)\<close> wraps to 0, and \<open>setAll\<close> through that view writes the element
  \<open>(0, 1)\<close> of the parent, which lies outside every block of rows 1 to 2.
\<close>

lemma MatrixView_wraps:
  "MatrixView (Matrix 0 3 4) 1 0 (2 ^ 64 - 1) 1
     = Some \<lparr>getData = 1, getRows = 2 ^ 64 - 1, getCols = 1, getLd = 3\<rparr>"
  by (simp add: MatrixView_def size_t_add_def Matrix_def)

lemma setAll_wrapped_view:
  "\<exists>h'. MatrixView_setAll \<lparr>getData = 1, getRows = 2 ^ 64 - 1, getCols = 1, getLd = 3\<rparr> v h
           = Inr h'
        \<and> elem (Matrix 0 3 4) 0 1 h' = v"
proof -
  let ?V = "\<lparr>getData = 1, getRows = 2 ^ 64 - 1, getCols = 1, getLd = 3\<rparr>"
  have "addr ?V 2 0 \<in> in_view ?V"
    by (rule in_viewI) simp_all
  then have "3 \<in> in_view ?V"
    by (simp add: addr_def numeral_3_eq_3)
  then show ?thesis
    by (simp add: MatrixView_setAll_result elem_def addr_def Matrix_def)
qed

section \<open>Copying columns\<close>

lemma memcpy_outside:
  "\<not> (dst \<le> x \<and> x < dst + n) \<Longrightarrow> std_memcpy dst src n h x = h x"
  by (auto simp: std_memcpy_def)

lemma memcpy_column:
  "i < n \<Longrightarrow> std_memcpy (getData a + c * getLd a) (getData b + c' * getLd b) n h (addr a i c)
             = h (addr b i c')"
  by (simp add: std_memcpy_def addr_def algebra_simps)

lemma column_range_addr:
  "(dst_col \<le> x \<and> x < dst_col + n) \<longleftrightarrow> (\<exists>i<n. x = dst_col + i)" for dst_col :: nat
proof
  assume "dst_col \<le> x \<and> x < dst_col + n"
  then have "x - dst_col < n \<and> x = dst_col + (x - dst_col)" by arith
  then show "\<exists>i<n. x = dst_col + i" by blast
qed auto

lemma memcpy_not_in_column:
  assumes "\<forall>i<n. x \<noteq> addr a i c"
  shows "std_memcpy (getData a + c * getLd a) src n h x = h x"
proof (rule memcpy_outside)
  show "\<not> (getData a + c * getLd a \<le> x \<and> x < getData a + c * getLd a + n)"
  proof
    assume "getData a + c * getLd a \<le> x \<and> x < getData a + c * getLd a + n"
    then obtain i where "i < n" "x = getData a + c * getLd a + i"
      unfolding column_range_addr by blast
    then have "i < n" "x = addr a i c" by (simp_all add: addr_def)
    with assms show False by blast
  qed
qed

text \<open>
  Copying columns \<open>sC ! k\<close> of \<open>b\<close> to columns \<open>dC ! k\<close> of \<open>a\<close> for \<open>k = 0, ..., n - 1\<close>, as the
  loop of \<open>col_copy\<close> calls and the assignment operators do.
\<close>

lemma gather_columns_frame:
  assumes "\<forall>k<n. \<forall>i<r. x \<noteq> addr a i (dC ! k)"
  shows "fold (\<lambda>k. std_memcpy (getData a + dC ! k * getLd a) (getData b + sC ! k * getLd b) r)
              [0..<n] h x = h x"
  using assms
proof (induction n)
  case 0
  show ?case by simp
next
  case (Suc n)
  then have "\<forall>i<r. x \<noteq> addr a i (dC ! n)" by simp
  then show ?case using Suc by (simp add: memcpy_not_in_column)
qed

lemma gather_columns_value:
  assumes apart: "columns_apart a" and r: "r \<le> getRows a"
    and disj: "\<forall>k<n. \<forall>i<r. \<forall>k'<n. \<forall>i'<r. addr b i (sC ! k) \<noteq> addr a i' (dC ! k')"
    and k: "k < n" and last: "\<forall>k'. k < k' \<and> k' < n \<longrightarrow> dC ! k' \<noteq> dC ! k"
    and i: "i < r"
  shows "fold (\<lambda>k. std_memcpy (getData a + dC ! k * getLd a) (getData b + sC ! k * getLd b) r)
              [0..<n] h (addr a i (dC ! k)) = h (addr b i (sC ! k))"
  using disj k last
proof (induction n)
  case 0
  then show ?case by simp
next
  case (Suc n)
  let ?step = "\<lambda>k. std_memcpy (getData a + dC ! k * getLd a) (getData b + sC ! k * getLd b) r"
  let ?hn = "fold ?step [0..<n] h"
  have fold_Suc: "fold ?step [0..<Suc n] h = ?step n ?hn" by simp
  have disj_n: "\<forall>k<n. \<forall>i<r. \<forall>k'<n. \<forall>i'<r. addr b i (sC ! k) \<noteq> addr a i' (dC ! k')"
    using Suc.prems(1) by (meson less_Suc_eq)
  show ?case
  proof (cases "k = n")
    case True
    have "\<forall>k'<n. \<forall>i'<r. addr b i (sC ! n) \<noteq> addr a i' (dC ! k')"
      using Suc.prems(1) i by (meson less_Suc_eq)
    then have "?hn (addr b i (sC ! n)) = h (addr b i (sC ! n))"
      by (rule gather_columns_frame)
    then show ?thesis
      unfolding fold_Suc True using i by (simp add: memcpy_column)
  next
    case False
    with Suc.prems(2) have kn: "k < n" by simp
    have neq: "dC ! n \<noteq> dC ! k" using Suc.prems(3) kn by simp
    have "\<forall>i'<r. addr a i (dC ! k) \<noteq> addr a i' (dC ! n)"
    proof (intro allI impI notI)
      fix i' assume "i' < r" "addr a i (dC ! k) = addr a i' (dC ! n)"
      then have "dC ! k = dC ! n"
        using addr_inj [OF apart, of i i' "dC ! k" "dC ! n"] i r by simp
      with neq show False by simp
    qed
    then have "?step n ?hn (addr a i (dC ! k)) = ?hn (addr a i (dC ! k))"
      by (rule memcpy_not_in_column)
    moreover have "?hn (addr a i (dC ! k)) = h (addr b i (sC ! k))"
      using Suc.IH [OF disj_n kn] Suc.prems(3) by simp
    ultimately show ?thesis unfolding fold_Suc by simp
  qed
qed

section \<open>Assignment to an owning matrix\<close>

lemma Matrix_assign_eq:
  "getLd this = getRows this \<Longrightarrow> Matrix_assign this arg h = MatrixView_assign this arg h"
  by (simp add: Matrix_assign_def MatrixView_assign_def)

lemma assign_columns:
  "fold (\<lambda>j. std_memcpy (getData a + j * getLd a) (getData b + j * getLd b) r) [0..<c] h
   = fold (\<lambda>k. std_memcpy (getData a + [0..<c] ! k * getLd a)
                            (getData b + [0..<c] ! k * getLd b) r) [0..<c] h"
  by (rule fold_cong) simp_all

lemma assign_frame:
  assumes "x \<notin> in_view a"
  shows "fold (\<lambda>j. std_memcpy (getData a + j * getLd a) (getData b + j * getLd b) (getRows a))
              [0..<getCols a] h x = h x"
proof -
  have "\<forall>k<getCols a. \<forall>i<getRows a. x \<noteq> addr a i ([0..<getCols a] ! k)"
    using assms by (auto simp: in_view_iff)
  then show ?thesis
    unfolding assign_columns by (rule gather_columns_frame)
qed

lemma assign_value:
  assumes "columns_apart a" and "getRows b = getRows a" and "getCols b = getCols a"
    and "in_view b \<inter> in_view a = {}" and "i < getRows a" and "j < getCols a"
  shows "fold (\<lambda>j. std_memcpy (getData a + j * getLd a) (getData b + j * getLd b) (getRows a))
              [0..<getCols a] h (addr a i j) = h (addr b i j)"
proof -
  let ?c = "getCols a"
  have disj: "\<forall>k<?c. \<forall>i<getRows a. \<forall>k'<?c. \<forall>i'<getRows a.
                addr b i ([0..<?c] ! k) \<noteq> addr a i' ([0..<?c] ! k')"
  proof (intro allI impI notI)
    fix k i k' i'
    assume kk: "k < ?c" "i < getRows a" "k' < ?c" "i' < getRows a"
    assume e: "addr b i ([0..<?c] ! k) = addr a i' ([0..<?c] ! k')"
    have "addr b i k \<in> in_view b" "addr a i' k' \<in> in_view a"
      using assms(2,3) kk by (simp_all add: in_viewI)
    moreover have "addr b i k = addr a i' k'" using e kk by simp
    ultimately show False using assms(4) by auto
  qed
  have "fold (\<lambda>k. std_memcpy (getData a + [0..<?c] ! k * getLd a)
                               (getData b + [0..<?c] ! k * getLd b) (getRows a)) [0..<?c] h
          (addr a i ([0..<?c] ! j)) = h (addr b i ([0..<?c] ! j))"
    using assms(1) _ disj assms(6) _ assms(5)
    by (rule gather_columns_value) (simp_all add: assms(6))
  then show ?thesis
    unfolding assign_columns using assms(6) by simp
qed

text \<open>
  C4. Assigning a matrix-concept value \<open>src\<close> to an owning matrix of \<open>r\<close> rows and \<open>c\<close>
  columns fails with the assertion, before any write, when \<open>src\<close> has other dimensions.
  Otherwise it returns the store in which, column after column, the block of \<open>r\<close>
  elements at source offset \<open>col * sourceLd\<close> has been copied to destination offset
  \<open>col * r\<close>; nothing outside the destination has changed; and when \<open>src\<close> and the
  destination share no element, afterwards \<open>dest(i,j) = src(i,j)\<close> for every valid
  \<open>(i,j)\<close>, \<open>src\<close> being unchanged.
\<close>

theorem Matrix_assign_copies:
  "(getRows src \<noteq> r \<or> getCols src \<noteq> c
      \<longrightarrow> Matrix_assign (Matrix d r c) src h = Inl (AssertionFailed h))
   \<and> (getRows src = r \<and> getCols src = c \<longrightarrow>
        (\<exists>h'. Matrix_assign (Matrix d r c) src h = Inr h'
           \<and> h' = fold (\<lambda>col. std_memcpy (d + col * r) (getData src + col * getLd src) r)
                       [0..<c] h
           \<and> (\<forall>x. x \<notin> in_view (Matrix d r c) \<longrightarrow> h' x = h x)
           \<and> (in_view src \<inter> in_view (Matrix d r c) = {} \<longrightarrow>
                (\<forall>i<r. \<forall>j<c. elem (Matrix d r c) i j h' = elem src i j h'
                               \<and> elem src i j h' = elem src i j h))))"
proof (intro conjI impI)
  assume "getRows src \<noteq> r \<or> getCols src \<noteq> c"
  then show "Matrix_assign (Matrix d r c) src h = Inl (AssertionFailed h)"
    by (auto simp: Matrix_assign_def Matrix_def)
next
  assume dims: "getRows src = r \<and> getCols src = c"
  let ?a = "Matrix d r c"
  let ?h' = "fold (\<lambda>col. std_memcpy (d + col * r) (getData src + col * getLd src) r) [0..<c] h"
  have sel: "getData ?a = d" "getRows ?a = r" "getCols ?a = c" "getLd ?a = r"
    by (simp_all add: Matrix_def)
  have fold_a: "?h' = fold (\<lambda>j. std_memcpy (getData ?a + j * getLd ?a)
                  (getData src + j * getLd src) (getRows ?a)) [0..<getCols ?a] h"
    by (simp only: sel)
  have res: "Matrix_assign ?a src h = Inr ?h'"
    using dims by (simp add: Matrix_assign_def sel)
  have frame: "\<forall>x. x \<notin> in_view ?a \<longrightarrow> ?h' x = h x"
    unfolding fold_a by (simp add: assign_frame)
  have apart: "columns_apart ?a" by (simp add: columns_apart_def sel)
  have vals: "\<forall>i<r. \<forall>j<c. elem ?a i j ?h' = elem src i j ?h' \<and> elem src i j ?h' = elem src i j h"
    if disj: "in_view src \<inter> in_view ?a = {}"
  proof (intro allI impI)
    fix i j assume ij: "i < r" "j < c"
    have "?h' (addr ?a i j) = h (addr src i j)"
      unfolding fold_a using apart _ _ disj
      by (rule assign_value) (simp_all add: sel dims ij)
    moreover have "addr src i j \<in> in_view src"
      using ij dims by (simp add: in_viewI)
    then have "addr src i j \<notin> in_view ?a" using disj by blast
    then have "?h' (addr src i j) = h (addr src i j)" using frame by blast
    ultimately show "elem ?a i j ?h' = elem src i j ?h' \<and> elem src i j ?h' = elem src i j h"
      by (simp add: elem_def)
  qed
  show "\<exists>h'. Matrix_assign ?a src h = Inr h' \<and> h' = ?h'
           \<and> (\<forall>x. x \<notin> in_view ?a \<longrightarrow> h' x = h x)
           \<and> (in_view src \<inter> in_view ?a = {} \<longrightarrow>
                (\<forall>i<r. \<forall>j<c. elem ?a i j h' = elem src i j h'
                               \<and> elem src i j h' = elem src i j h))"
    using res frame vals by blast
qed

theorem Matrix_assign_copies_witness:
  "Matrix_assign (Matrix 0 2 2) \<lparr>getData = 10, getRows = 3, getCols = 2, getLd = 3\<rparr> (\<lambda>x. real x)
     = Inl (AssertionFailed (\<lambda>x. real x))
   \<and> in_view \<lparr>getData = 10, getRows = 2, getCols = 2, getLd = 3\<rparr> \<inter> in_view (Matrix 0 2 2) = {}
   \<and> (\<exists>h'. Matrix_assign (Matrix 0 2 2) \<lparr>getData = 10, getRows = 2, getCols = 2, getLd = 3\<rparr>
              (\<lambda>x. real x) = Inr h'
          \<and> elem (Matrix 0 2 2) 0 0 h' = 10 \<and> elem (Matrix 0 2 2) 1 0 h' = 11
          \<and> elem (Matrix 0 2 2) 0 1 h' = 13 \<and> elem (Matrix 0 2 2) 1 1 h' = 14
          \<and> h' 4 = 4 \<and> h' 12 = 12)"
proof -
  let ?S = "\<lparr>getData = 10, getRows = 2, getCols = 2, getLd = 3\<rparr>"
  let ?F = "\<lparr>getData = 10, getRows = 3, getCols = 2, getLd = 3\<rparr>"
  let ?D = "Matrix 0 2 2"
  let ?h = "\<lambda>x. real x"
  have fail: "Matrix_assign ?D ?F ?h = Inl (AssertionFailed ?h)"
    using Matrix_assign_copies [of ?F 2 2 0 ?h] by simp
  have vD: "in_view ?D = {0, 1, 2, 3}"
    by (simp add: in_view_def view_addrs_def addr_def Matrix_def upt_rec)
  have vS: "in_view ?S = {10, 11, 13, 14}"
    by (simp add: in_view_def view_addrs_def addr_def upt_rec)
  have disj: "in_view ?S \<inter> in_view ?D = {}"
    unfolding vD vS by simp
  from Matrix_assign_copies [of ?S 2 2 0 ?h] disj obtain h' where
    r: "Matrix_assign ?D ?S ?h = Inr h'"
    and f: "\<forall>x. x \<notin> in_view ?D \<longrightarrow> h' x = ?h x"
    and v: "\<forall>i<2. \<forall>j<2. elem ?D i j h' = elem ?S i j h' \<and> elem ?S i j h' = elem ?S i j ?h"
    by auto
  have "elem ?D 0 0 h' = 10" "elem ?D 1 0 h' = 11" "elem ?D 0 1 h' = 13" "elem ?D 1 1 h' = 14"
    using v [rule_format, of 0 0] v [rule_format, of 1 0] v [rule_format, of 0 1]
      v [rule_format, of 1 1] by (simp_all add: elem_def addr_def)
  moreover have "h' 4 = 4" "h' 12 = 12"
    using f [rule_format, of 4] f [rule_format, of 12] unfolding vD by simp_all
  ultimately show ?thesis using fail disj r by simp
qed

section \<open>Reordering columns by index vectors\<close>

lemma for_each_all_succeed:
  assumes "\<forall>k\<in>set ks. \<forall>h. body k h = Inr (g k h)"
  shows "for_each body ks h = Inr (fold g ks h)"
  using assms by (induction ks arbitrary: h) simp_all

lemma index_vector_eq:
  "index_vector v count =
     (if indices_ok v count \<and> length v \<le> count then Some (expanded v count) else None)"
  by (cases v) (simp_all add: index_vector_def indices_ok_def expanded_def)

lemma expanded_in_bounds:
  assumes "indices_ok v count" and "k < length (expanded v count)"
  shows "expanded v count ! k < count"
  using assms by (cases "v = []") (simp_all add: expanded_def indices_ok_def list_all_length)

lemma for_each_col_copy:
  assumes "getRows b = getRows a" and "\<forall>k<n. sC ! k < getCols b \<and> dC ! k < getCols a"
  shows "for_each (\<lambda>j. col_copy b (sC ! j) a (dC ! j)) [0..<n] h
         = Inr (fold (\<lambda>k. std_memcpy (getData a + dC ! k * getLd a)
                                      (getData b + sC ! k * getLd b) (getRows b)) [0..<n] h)"
  using assms by (intro for_each_all_succeed) (simp add: col_copy_def)

text \<open>What \<open>reorderColumnsByVectors\<close> does when at least one list is given.\<close>

lemma reorderColumnsByVectors_cases:
  assumes "getRows b = getRows a" and "vToCols \<noteq> [] \<or> vcols \<noteq> []"
  shows "reorderColumnsByVectors a vToCols b vcols h =
     (if indices_ok vToCols (getCols a) \<and> length vToCols \<le> getCols a
         \<and> indices_ok vcols (getCols b) \<and> length vcols \<le> getCols b
         \<and> length (expanded vToCols (getCols a)) = length (expanded vcols (getCols b))
      then Inr (fold (\<lambda>k. std_memcpy (getData a + expanded vToCols (getCols a) ! k * getLd a)
                                      (getData b + expanded vcols (getCols b) ! k * getLd b)
                                      (getRows b))
                     [0..<length (expanded vcols (getCols b))] h)
      else Inl (AssertionFailed h))"
proof -
  let ?dC = "expanded vToCols (getCols a)" and ?sC = "expanded vcols (getCols b)"
  have pos: "0 < length ?sC" if "length ?dC = length ?sC"
    using assms(2) that by (cases vToCols; cases vcols) (auto simp: expanded_def split: if_splits)
  have ne: "\<not> (length vToCols = 0 \<and> length vcols = 0)"
    using assms(2) by simp
  have unfold: "reorderColumnsByVectors a vToCols b vcols h =
        (case index_vector vToCols (getCols a) of
           None \<Rightarrow> Inl (AssertionFailed h)
         | Some vpToCols \<Rightarrow>
        (case index_vector vcols (getCols b) of
           None \<Rightarrow> Inl (AssertionFailed h)
         | Some vpCols \<Rightarrow>
              if length vpToCols = length vpCols \<and> length vpCols > 0
              then for_each (\<lambda>j. col_copy b (vpCols ! j) a (vpToCols ! j)) [0..<length vpCols] h
              else Inl (AssertionFailed h)))"
    unfolding reorderColumnsByVectors_def Let_def using ne assms(1) by (simp only: if_False simp_thms)
  show ?thesis
  proof (cases "indices_ok vToCols (getCols a) \<and> length vToCols \<le> getCols a
         \<and> indices_ok vcols (getCols b) \<and> length vcols \<le> getCols b
         \<and> length ?dC = length ?sC")
    case True
    then have "\<forall>k<length ?sC. ?sC ! k < getCols b \<and> ?dC ! k < getCols a"
      by (simp add: expanded_in_bounds)
    with assms(1) have "for_each (\<lambda>j. col_copy b (?sC ! j) a (?dC ! j)) [0..<length ?sC] h
         = Inr (fold (\<lambda>k. std_memcpy (getData a + ?dC ! k * getLd a)
                                      (getData b + ?sC ! k * getLd b) (getRows b))
                     [0..<length ?sC] h)"
      by (rule for_each_col_copy)
    with True pos assms(1) show ?thesis
      unfolding unfold by (simp add: index_vector_eq)
  next
    case False
    then show ?thesis
      unfolding unfold by (auto simp: index_vector_eq)
  qed
qed

text \<open>
  C1 (amended). In \<open>reorderColumnsByVectors(dest, destCols, src, srcCols)\<close> with
  \<open>dest.rows = src.rows\<close> and at least one list given, an empty list stands for all
  column indices \<open>0..count-1\<close> of its own matrix. The call fails with an assertion,
  the store untouched, unless the two expanded lists are equally long, every index is
  within its own matrix, and neither given list is longer than its matrix has columns.
  Otherwise it returns the store in which, for \<open>k = 0, 1, ...\<close> below the common length in
  turn, the whole column \<open>srcCols[k]\<close> of \<open>src\<close> has been copied to column \<open>destCols[k]\<close>
  of \<open>dest\<close>: nothing outside these destination columns has changed, and when the
  columns of \<open>dest\<close> are apart and \<open>src\<close> shares no element with \<open>dest\<close>, column
  \<open>destCols[k]\<close> of \<open>dest\<close> holds column \<open>srcCols[k]\<close> of \<open>src\<close> in all rows, for every
  \<open>k\<close> whose destination column is not named again later in the list.
\<close>

theorem reorderColumnsByVectors_copies:
  assumes "getRows dest = getRows src" and "destCols \<noteq> [] \<or> srcCols \<noteq> []"
  shows
   "(\<not> (length (expanded destCols (getCols dest)) = length (expanded srcCols (getCols src))
         \<and> indices_ok destCols (getCols dest) \<and> indices_ok srcCols (getCols src)
         \<and> length destCols \<le> getCols dest \<and> length srcCols \<le> getCols src)
      \<longrightarrow> reorderColumnsByVectors dest destCols src srcCols h = Inl (AssertionFailed h))
    \<and> (length (expanded destCols (getCols dest)) = length (expanded srcCols (getCols src))
         \<and> indices_ok destCols (getCols dest) \<and> indices_ok srcCols (getCols src)
         \<and> length destCols \<le> getCols dest \<and> length srcCols \<le> getCols src
      \<longrightarrow> (\<exists>h'. reorderColumnsByVectors dest destCols src srcCols h = Inr h'
            \<and> h' = fold (\<lambda>k. std_memcpy
                            (getData dest + expanded destCols (getCols dest) ! k * getLd dest)
                            (getData src + expanded srcCols (getCols src) ! k * getLd src)
                            (getRows src))
                        [0..<length (expanded srcCols (getCols src))] h
            \<and> (\<forall>x. (\<forall>k<length (expanded destCols (getCols dest)). \<forall>i<getRows dest.
                        x \<noteq> addr dest i (expanded destCols (getCols dest) ! k))
                     \<longrightarrow> h' x = h x)
            \<and> (columns_apart dest \<and> in_view src \<inter> in_view dest = {} \<longrightarrow>
                 (\<forall>k<length (expanded destCols (getCols dest)).
                     (\<forall>k'. k < k' \<and> k' < length (expanded destCols (getCols dest))
                            \<longrightarrow> expanded destCols (getCols dest) ! k'
                                  \<noteq> expanded destCols (getCols dest) ! k)
                     \<longrightarrow> (\<forall>i<getRows dest.
                            elem dest i (expanded destCols (getCols dest) ! k) h'
                            = elem src i (expanded srcCols (getCols src) ! k) h)))))"
proof -
  let ?dC = "expanded destCols (getCols dest)" and ?sC = "expanded srcCols (getCols src)"
  let ?ok = "length ?dC = length ?sC
         \<and> indices_ok destCols (getCols dest) \<and> indices_ok srcCols (getCols src)
         \<and> length destCols \<le> getCols dest \<and> length srcCols \<le> getCols src"
  let ?h' = "fold (\<lambda>k. std_memcpy (getData dest + ?dC ! k * getLd dest)
                                   (getData src + ?sC ! k * getLd src) (getRows src))
                  [0..<length ?sC] h"
  note cases = reorderColumnsByVectors_cases [OF assms(1) [symmetric] assms(2), of h]
  have fails: "reorderColumnsByVectors dest destCols src srcCols h = Inl (AssertionFailed h)"
    if "\<not> ?ok"
    using that unfolding cases by auto
  have res: "reorderColumnsByVectors dest destCols src srcCols h = Inr ?h'" if "?ok"
    using that unfolding cases by simp
  have frame: "?h' x = h x"
    if "?ok" "\<forall>k<length ?dC. \<forall>i<getRows dest. x \<noteq> addr dest i (?dC ! k)" for x
  proof -
    from that have "\<forall>k<length ?sC. \<forall>i<getRows src. x \<noteq> addr dest i (?dC ! k)"
      using assms(1) by simp
    then show ?thesis by (rule gather_columns_frame)
  qed
  have vals: "elem dest i (?dC ! k) ?h' = elem src i (?sC ! k) h"
    if ok: "?ok" and apart: "columns_apart dest" and disj: "in_view src \<inter> in_view dest = {}"
      and k: "k < length ?dC" and last: "\<forall>k'. k < k' \<and> k' < length ?dC \<longrightarrow> ?dC ! k' \<noteq> ?dC ! k"
      and i: "i < getRows dest" for k i
  proof -
    have len: "length ?dC = length ?sC" using ok by simp
    have d: "\<forall>k<length ?sC. \<forall>i<getRows src. \<forall>k'<length ?sC. \<forall>i'<getRows src.
                addr src i (?sC ! k) \<noteq> addr dest i' (?dC ! k')"
    proof (intro allI impI notI)
      fix k i k' i'
      assume kk: "k < length ?sC" "i < getRows src" "k' < length ?sC" "i' < getRows src"
      assume e: "addr src i (?sC ! k) = addr dest i' (?dC ! k')"
      have "?sC ! k < getCols src" "?dC ! k' < getCols dest"
        using ok kk len by (simp_all add: expanded_in_bounds)
      then have "addr src i (?sC ! k) \<in> in_view src" "addr dest i' (?dC ! k') \<in> in_view dest"
        using kk assms(1) by (simp_all add: in_viewI)
      with e disj show False by auto
    qed
    have "?h' (addr dest i (?dC ! k)) = h (addr src i (?sC ! k))"
      using apart _ d _ _ _
      by (rule gather_columns_value) (use assms(1) k last i len in simp_all)
    then show ?thesis by (simp add: elem_def)
  qed
  show ?thesis
  proof (intro conjI impI)
    assume "\<not> ?ok" then show "reorderColumnsByVectors dest destCols src srcCols h = Inl (AssertionFailed h)"
      by (rule fails)
  next
    assume ok: "?ok"
    show "\<exists>h'. reorderColumnsByVectors dest destCols src srcCols h = Inr h'
            \<and> h' = ?h'
            \<and> (\<forall>x. (\<forall>k<length ?dC. \<forall>i<getRows dest. x \<noteq> addr dest i (?dC ! k)) \<longrightarrow> h' x = h x)
            \<and> (columns_apart dest \<and> in_view src \<inter> in_view dest = {} \<longrightarrow>
                 (\<forall>k<length ?dC.
                     (\<forall>k'. k < k' \<and> k' < length ?dC \<longrightarrow> ?dC ! k' \<noteq> ?dC ! k)
                     \<longrightarrow> (\<forall>i<getRows dest. elem dest i (?dC ! k) h' = elem src i (?sC ! k) h)))"
      using res [OF ok] frame [OF ok] vals [OF ok] by blast
  qed
qed

theorem reorderColumnsByVectors_copies_witness:
  "getRows (Matrix 0 2 3) = getRows (Matrix 10 2 3)
   \<and> columns_apart (Matrix 0 2 3)
   \<and> in_view (Matrix 10 2 3) \<inter> in_view (Matrix 0 2 3) = {}
   \<and> reorderColumnsByVectors (Matrix 0 2 3) [0, 5] (Matrix 10 2 3) [0, 1] (\<lambda>x. real x)
       = Inl (AssertionFailed (\<lambda>x. real x))
   \<and> (\<exists>h'. reorderColumnsByVectors (Matrix 0 2 3) [] (Matrix 10 2 3) [2, 0, 1] (\<lambda>x. real x) = Inr h'
          \<and> elem (Matrix 0 2 3) 0 0 h' = 14 \<and> elem (Matrix 0 2 3) 1 0 h' = 15
          \<and> elem (Matrix 0 2 3) 0 1 h' = 10 \<and> elem (Matrix 0 2 3) 1 1 h' = 11
          \<and> elem (Matrix 0 2 3) 0 2 h' = 12 \<and> elem (Matrix 0 2 3) 1 2 h' = 13
          \<and> h' 6 = 6)"
proof -
  let ?D = "Matrix 0 2 3" and ?S = "Matrix 10 2 3" and ?h = "\<lambda>x. real x"
  have sel: "getRows ?D = 2" "getCols ?D = 3" "getRows ?S = 2" "getCols ?S = 3"
    "getData ?D = 0" "getData ?S = 10" "getLd ?D = 2" "getLd ?S = 2"
    by (simp_all add: Matrix_def)
  have rows: "getRows ?D = getRows ?S" by (simp add: sel)
  have apart: "columns_apart ?D" by (simp add: columns_apart_def sel)
  have vD: "in_view ?D = {0, 1, 2, 3, 4, 5}"
    by (simp add: in_view_def view_addrs_def addr_def sel upt_rec)
  have vS: "in_view ?S = {10, 11, 12, 13, 14, 15}"
    by (simp add: in_view_def view_addrs_def addr_def sel upt_rec)
  have disj: "in_view ?S \<inter> in_view ?D = {}" unfolding vD vS by simp
  have fail: "reorderColumnsByVectors ?D [0, 5] ?S [0, 1] ?h = Inl (AssertionFailed ?h)"
    using reorderColumnsByVectors_copies [OF rows, of "[0, 5]" "[0, 1]" ?h]
    by (simp add: sel expanded_def indices_ok_def)
  have ex: "expanded [] (getCols ?D) = [0..<3]" "expanded [2, 0, 1] (getCols ?S) = [2, 0, 1]"
    by (simp_all add: expanded_def sel)
  from reorderColumnsByVectors_copies [OF rows, of "[]" "[2, 0, 1]" ?h]
  obtain h' where r: "reorderColumnsByVectors ?D [] ?S [2, 0, 1] ?h = Inr h'"
    and f: "\<forall>x. (\<forall>k<3. \<forall>i<2. x \<noteq> addr ?D i ([0..<3] ! k)) \<longrightarrow> h' x = ?h x"
    and v: "\<forall>k<3. (\<forall>k'. k < k' \<and> k' < 3 \<longrightarrow> [0..<3] ! k' \<noteq> [0..<3] ! k)
                \<longrightarrow> (\<forall>i<2. elem ?D i ([0..<3] ! k) h' = elem ?S i ([2, 0, 1] ! k) ?h)"
    unfolding ex using apart disj by (auto simp: sel indices_ok_def)
  have last: "\<forall>k'. k < k' \<and> k' < 3 \<longrightarrow> [0..<3] ! k' \<noteq> [0..<3] ! k" if "k < 3" for k
    using that by simp
  have v': "elem ?D i ([0..<3] ! k) h' = elem ?S i ([2, 0, 1] ! k) ?h" if "k < 3" "i < 2" for k i
    using v last that by blast
  have "elem ?D 0 0 h' = 14" "elem ?D 1 0 h' = 15" "elem ?D 0 1 h' = 10" "elem ?D 1 1 h' = 11"
    "elem ?D 0 2 h' = 12" "elem ?D 1 2 h' = 13"
    using v' [of 0 0] v' [of 0 1] v' [of 1 0] v' [of 1 1] v' [of 2 0] v' [of 2 1]
    by (simp_all add: elem_def addr_def sel)
  moreover have "h' 6 = 6"
  proof -
    have "\<forall>k<3. \<forall>i<2. (6::nat) \<noteq> addr ?D i ([0..<3] ! k)"
      by (auto simp: addr_def sel)
    then show ?thesis using f by simp
  qed
  ultimately show ?thesis using rows apart disj fail r by simp
qed

text \<open>
  The claim as stated fails: a destination list that names a column twice can be as
  long as the source list and within bounds, and the call still aborts, because the
  list is longer than the destination has columns.
\<close>

theorem reorderColumnsByVectors_counterexample:
  "getRows (Matrix 0 1 1) = getRows (Matrix 10 1 2)
   \<and> length (expanded [0, 0] (getCols (Matrix 0 1 1)))
       = length (expanded [0, 1] (getCols (Matrix 10 1 2)))
   \<and> indices_ok [0, 0] (getCols (Matrix 0 1 1))
   \<and> indices_ok [0, 1] (getCols (Matrix 10 1 2))
   \<and> reorderColumnsByVectors (Matrix 0 1 1) [0, 0] (Matrix 10 1 2) [0, 1] (\<lambda>x. real x)
       = Inl (AssertionFailed (\<lambda>x. real x))"
  by (simp add: Matrix_def expanded_def indices_ok_def reorderColumnsByVectors_def
                index_vector_def)

section \<open>Copying rows\<close>

text \<open>
  A loop of single assignments \<open>*(w k) = *(r k)\<close> for \<open>k = 0, ..., n - 1\<close>: what it leaves
  alone, and what it stores where reads and writes do not meet.
\<close>

lemma copy_double_same [simp]: "copy_double p q h p = h q"
  by (simp add: copy_double_def)

lemma copy_double_other [simp]: "x \<noteq> p \<Longrightarrow> copy_double p q h x = h x"
  by (simp add: copy_double_def)

lemma scatter_frame:
  assumes "\<forall>k<n. x \<noteq> w k"
  shows "fold (\<lambda>k. copy_double (w k) (r k)) [0..<n] h x = h x"
  using assms by (induction n) simp_all

lemma scatter_value:
  assumes "\<forall>k<n. \<forall>k'<n. r k \<noteq> w k'" and "k < n" and "\<forall>k'. k < k' \<and> k' < n \<longrightarrow> w k' \<noteq> w k"
  shows "fold (\<lambda>k. copy_double (w k) (r k)) [0..<n] h (w k) = h (r k)"
  using assms
proof (induction n)
  case 0
  then show ?case by simp
next
  case (Suc n)
  let ?hn = "fold (\<lambda>k. copy_double (w k) (r k)) [0..<n] h"
  show ?case
  proof (cases "k = n")
    case True
    have "\<forall>k'<n. r n \<noteq> w k'" using Suc.prems(1) by (meson less_Suc_eq)
    then have "?hn (r n) = h (r n)" by (rule scatter_frame)
    then show ?thesis using True by simp
  next
    case False
    with Suc.prems(2) have kn: "k < n" by simp
    have d: "\<forall>k<n. \<forall>k'<n. r k \<noteq> w k'" using Suc.prems(1) by (meson less_Suc_eq)
    have "w n \<noteq> w k" using Suc.prems(3) kn by simp
    moreover have "?hn (w k) = h (r k)"
      using Suc.IH [OF d kn] Suc.prems(3) by simp
    ultimately show ?thesis by simp
  qed
qed

lemma row_copy_loop_fold:
  assumes "row_src < src_ld" and "j \<le> c"
  shows "row_copy_loop (sd + row_src + j * src_ld) (dd + row_dest + j * dest_ld)
                       (sd + c * src_ld) src_ld dest_ld h
         = Inr (fold (\<lambda>j. copy_double (dd + row_dest + j * dest_ld) (sd + row_src + j * src_ld))
                     [j..<c] h)"
  using assms(2)
proof (induction "c - j" arbitrary: j h)
  case 0
  then have "j = c" by simp
  then show ?case by (subst row_copy_loop.simps) simp
next
  case (Suc m)
  then have jc: "j < c" by simp
  have "Suc j * src_ld \<le> c * src_ld" using jc by (intro mult_le_mono1) simp
  then have lt: "sd + row_src + j * src_ld < sd + c * src_ld"
    using assms(1) by simp
  have pos: "src_ld \<noteq> 0" using assms(1) by simp
  have next_p: "sd + row_src + j * src_ld + src_ld = sd + row_src + Suc j * src_ld"
    "dd + row_dest + j * dest_ld + dest_ld = dd + row_dest + Suc j * dest_ld"
    by simp_all
  have ih: "row_copy_loop (sd + row_src + Suc j * src_ld) (dd + row_dest + Suc j * dest_ld)
                       (sd + c * src_ld) src_ld dest_ld h'
         = Inr (fold (\<lambda>j. copy_double (dd + row_dest + j * dest_ld) (sd + row_src + j * src_ld))
                     [Suc j..<c] h')" for h'
    using Suc.hyps(1) [of "Suc j" h'] Suc.hyps(2) jc by simp
  show ?case
    by (subst row_copy_loop.simps) (simp only: lt pos if_True if_False next_p ih upt_conv_Cons [OF jc] fold_simps)
qed

lemma row_copy_result:
  assumes "getCols src = getCols dest" and "row_src < getRows src" and "row_dest < getRows dest"
    and "columns_apart src"
  shows "row_copy src row_src dest row_dest h
         = Inr (fold (\<lambda>j. copy_double (addr dest row_dest j) (addr src row_src j))
                     [0..<getCols src] h)"
proof -
  have "row_src < getLd src" using assms(2,4) by (simp add: columns_apart_def)
  then have "row_copy_loop (getData src + row_src + 0 * getLd src)
                (getData dest + row_dest + 0 * getLd dest)
                (getData src + getCols src * getLd src) (getLd src) (getLd dest) h
         = Inr (fold (\<lambda>j. copy_double (getData dest + row_dest + j * getLd dest)
                                          (getData src + row_src + j * getLd src))
                     [0..<getCols src] h)"
    by (rule row_copy_loop_fold) simp
  then show ?thesis
    using assms(1-3) by (simp add: row_copy_def addr_def)
qed

lemma row_copy_loop_returns:
  assumes "0 < src_ld \<or> e \<le> p1"
  shows "\<exists>h'. row_copy_loop p1 p2 e src_ld dest_ld h = Inr h'"
  using assms
proof (induction p1 p2 e src_ld dest_ld h rule: row_copy_loop.induct)
  case (1 p1 p2 e src_ld dest_ld h)
  show ?case
  proof (cases "p1 < e")
    case True
    with "1.prems" have pos: "src_ld \<noteq> 0" by simp
    with "1.IH" [OF True pos] True show ?thesis
      by (subst row_copy_loop.simps) simp
  next
    case False
    then show ?thesis by (subst row_copy_loop.simps) simp
  qed
qed

lemma row_copy_returns:
  assumes "getCols src = getCols dest" and "row_src < getRows src" and "row_dest < getRows dest"
  shows "\<exists>h'. row_copy src row_src dest row_dest h = Inr h'"
proof -
  have "0 < getLd src \<or> getData src + getCols src * getLd src \<le> getData src + row_src"
    by (cases "getLd src = 0") auto
  then show ?thesis
    using assms by (simp add: row_copy_def row_copy_loop_returns)
qed

section \<open>Swapping two rows by index vectors\<close>

lemma reorderRowsByVectors_cases:
  assumes "getCols b = getCols a" and "vToRows \<noteq> [] \<or> vrows \<noteq> []"
  shows "reorderRowsByVectors a vToRows b vrows h =
     (if indices_ok vToRows (getRows a) \<and> length vToRows \<le> getRows a
         \<and> indices_ok vrows (getRows b) \<and> length vrows \<le> getRows b
         \<and> length (expanded vToRows (getRows a)) = length (expanded vrows (getRows b))
      then for_each (\<lambda>i. row_copy b (expanded vrows (getRows b) ! i) a
                                    (expanded vToRows (getRows a) ! i))
                    [0..<length (expanded vrows (getRows b))] h
      else Inl (AssertionFailed h))"
proof -
  let ?dR = "expanded vToRows (getRows a)" and ?sR = "expanded vrows (getRows b)"
  have pos: "0 < length ?sR" if "length ?dR = length ?sR"
    using assms(2) that by (cases vToRows; cases vrows) (auto simp: expanded_def split: if_splits)
  have ne: "\<not> (length vToRows = 0 \<and> length vrows = 0)"
    using assms(2) by simp
  have unfold: "reorderRowsByVectors a vToRows b vrows h =
        (case index_vector vToRows (getRows a) of
           None \<Rightarrow> Inl (AssertionFailed h)
         | Some vpToRows \<Rightarrow>
        (case index_vector vrows (getRows b) of
           None \<Rightarrow> Inl (AssertionFailed h)
         | Some vpRows \<Rightarrow>
              if length vpToRows = length vpRows \<and> length vpRows > 0
              then for_each (\<lambda>i. row_copy b (vpRows ! i) a (vpToRows ! i)) [0..<length vpRows] h
              else Inl (AssertionFailed h)))"
    unfolding reorderRowsByVectors_def Let_def using ne assms(1) by (simp only: if_False simp_thms)
  show ?thesis
    unfolding unfold using pos by (auto simp: index_vector_eq)
qed

text \<open>
  C2. Let \<open>dest\<close> and \<open>src\<close> have two rows and equally many columns, the columns of each
  apart, and no element in common. Then
  \<open>assignByVectors(dest, [1,0], [], src, [0,1], [])\<close> returns, and afterwards row 1 of
  \<open>dest\<close> is row 0 of \<open>src\<close> and row 0 of \<open>dest\<close> is row 1 of \<open>src\<close>, column by column;
  nothing outside \<open>dest\<close> has changed. For \<open>src = [[1,2],[3,4]]\<close> this is
  \<open>dest = [[3,4],[1,2]]\<close> (the witness).
\<close>

theorem assignByVectors_swaps_rows:
  assumes "getRows dest = 2" and "getRows src = 2" and "getCols dest = getCols src"
    and "columns_apart dest" and "columns_apart src" and "in_view src \<inter> in_view dest = {}"
  shows "\<exists>h'. assignByVectors dest [1, 0] [] src [0, 1] [] h = Inr h'
           \<and> (\<forall>j<getCols src. elem dest 1 j h' = elem src 0 j h
                               \<and> elem dest 0 j h' = elem src 1 j h)
           \<and> (\<forall>x. x \<notin> in_view dest \<longrightarrow> h' x = h x)"
proof -
  let ?c = "getCols src"
  let ?h1 = "fold (\<lambda>j. copy_double (addr dest 1 j) (addr src 0 j)) [0..<?c] h"
  let ?h2 = "fold (\<lambda>j. copy_double (addr dest 0 j) (addr src 1 j)) [0..<?c] ?h1"
  have rc1: "row_copy src 0 dest 1 h = Inr ?h1"
    using assms by (subst row_copy_result) simp_all
  have rc2: "row_copy src 1 dest 0 ?h1 = Inr ?h2"
    using assms by (subst row_copy_result) simp_all
  have c: "reorderRowsByVectors dest [1, 0] src [0, 1] h =
     (if indices_ok [1, 0] (getRows dest) \<and> length [1, 0::nat] \<le> getRows dest
         \<and> indices_ok [0, 1] (getRows src) \<and> length [0, 1::nat] \<le> getRows src
         \<and> length (expanded [1, 0] (getRows dest)) = length (expanded [0, 1] (getRows src))
      then for_each (\<lambda>i. row_copy src (expanded [0, 1] (getRows src) ! i) dest
                                    (expanded [1, 0] (getRows dest) ! i))
                    [0..<length (expanded [0, 1] (getRows src))] h
      else Inl (AssertionFailed h))"
    by (rule reorderRowsByVectors_cases) (simp_all add: assms(3))
  have "assignByVectors dest [1, 0] [] src [0, 1] [] h
          = reorderRowsByVectors dest [1, 0] src [0, 1] h"
    by (simp add: assignByVectors_def)
  also have "\<dots> = Inr ?h2"
    unfolding c using rc1 rc2
    by (simp add: assms(1,2) expanded_def indices_ok_def upt_rec)
  finally have res: "assignByVectors dest [1, 0] [] src [0, 1] [] h = Inr ?h2" .
  have sd: "addr src i j \<noteq> addr dest i' j'" if "i < 2" "j < ?c" "i' < 2" "j' < ?c" for i j i' j'
  proof -
    have "addr src i j \<in> in_view src" "addr dest i' j' \<in> in_view dest"
      using that assms(1-3) by (simp_all add: in_viewI)
    with assms(6) show ?thesis by auto
  qed
  have dd: "addr dest i j \<noteq> addr dest i' j'" if "i < 2" "i' < 2" "i \<noteq> i' \<or> j \<noteq> j'" for i j i' j'
    using addr_inj [OF assms(4), of i i' j j'] that assms(1) by auto
  have vals: "elem dest 1 j ?h2 = elem src 0 j h \<and> elem dest 0 j ?h2 = elem src 1 j h"
    if j: "j < ?c" for j
  proof -
    have "?h2 (addr dest 0 j) = ?h1 (addr src 1 j)"
      by (rule scatter_value) (use j sd dd in auto)
    also have "\<dots> = h (addr src 1 j)"
      by (rule scatter_frame) (use j sd in auto)
    finally have a: "?h2 (addr dest 0 j) = h (addr src 1 j)" .
    have "?h2 (addr dest 1 j) = ?h1 (addr dest 1 j)"
      by (rule scatter_frame) (use dd in auto)
    also have "\<dots> = h (addr src 0 j)"
      by (rule scatter_value) (use j sd dd in auto)
    finally have b: "?h2 (addr dest 1 j) = h (addr src 0 j)" .
    from a b show ?thesis by (simp add: elem_def)
  qed
  have frame: "?h2 x = h x" if "x \<notin> in_view dest" for x
  proof -
    have n: "x \<noteq> addr dest i j" if "i < 2" "j < ?c" for i j
      using \<open>x \<notin> in_view dest\<close> in_viewI [of i dest j] that assms(1,3) by auto
    have "?h2 x = ?h1 x" by (rule scatter_frame) (use n in auto)
    also have "\<dots> = h x" by (rule scatter_frame) (use n in auto)
    finally show ?thesis .
  qed
  from res vals frame show ?thesis by blast
qed

theorem assignByVectors_swaps_rows_witness:
  "row_major (Matrix 10 2 2) ((\<lambda>x. 0)(10 := 1, 11 := 3, 12 := 2, 13 := 4)) = [1, 2, 3, 4]
   \<and> columns_apart (Matrix 0 2 2) \<and> columns_apart (Matrix 10 2 2)
   \<and> in_view (Matrix 10 2 2) \<inter> in_view (Matrix 0 2 2) = {}
   \<and> (\<exists>h'. assignByVectors (Matrix 0 2 2) [1, 0] [] (Matrix 10 2 2) [0, 1] []
              ((\<lambda>x. 0)(10 := 1, 11 := 3, 12 := 2, 13 := 4)) = Inr h'
          \<and> row_major (Matrix 0 2 2) h' = [3, 4, 1, 2]
          \<and> row_major (Matrix 10 2 2) h' = [1, 2, 3, 4])"
proof -
  let ?D = "Matrix 0 2 2" and ?S = "Matrix 10 2 2"
  let ?h = "(\<lambda>x. 0::real)(10 := 1, 11 := 3, 12 := 2, 13 := 4)"
  have sel: "getRows ?D = 2" "getCols ?D = 2" "getRows ?S = 2" "getCols ?S = 2"
    "getData ?D = 0" "getData ?S = 10" "getLd ?D = 2" "getLd ?S = 2"
    by (simp_all add: Matrix_def)
  have src: "row_major ?S ?h = [1, 2, 3, 4]"
    by (simp add: row_major_def elem_def addr_def sel upt_rec)
  have apart: "columns_apart ?D" "columns_apart ?S" by (simp_all add: columns_apart_def sel)
  have vD: "in_view ?D = {0, 1, 2, 3}"
    by (simp add: in_view_def view_addrs_def addr_def sel upt_rec)
  have vS: "in_view ?S = {10, 11, 12, 13}"
    by (simp add: in_view_def view_addrs_def addr_def sel upt_rec)
  have disj: "in_view ?S \<inter> in_view ?D = {}" unfolding vD vS by simp
  from assignByVectors_swaps_rows [OF sel(1) sel(3) _ apart disj, of ?h]
  obtain h' where r: "assignByVectors ?D [1, 0] [] ?S [0, 1] [] ?h = Inr h'"
    and v: "\<forall>j<2. elem ?D 1 j h' = elem ?S 0 j ?h \<and> elem ?D 0 j h' = elem ?S 1 j ?h"
    and f: "\<forall>x. x \<notin> in_view ?D \<longrightarrow> h' x = ?h x"
    by (auto simp: sel)
  have "elem ?D 0 0 h' = 3" "elem ?D 0 1 h' = 4" "elem ?D 1 0 h' = 1" "elem ?D 1 1 h' = 2"
    using v [rule_format, of 0] v [rule_format, of 1]
    by (simp_all add: elem_def addr_def sel)
  then have d: "row_major ?D h' = [3, 4, 1, 2]"
    by (simp add: row_major_def sel upt_rec)
  have "h' 10 = 1" "h' 11 = 3" "h' 12 = 2" "h' 13 = 4"
    using f [rule_format, of 10] f [rule_format, of 11] f [rule_format, of 12]
      f [rule_format, of 13] unfolding vD by simp_all
  then have s: "row_major ?S h' = [1, 2, 3, 4]"
    by (simp add: row_major_def elem_def addr_def sel upt_rec)
  from src apart disj r d s show ?thesis by blast
qed

section \<open>When the index-vector functions abort\<close>

lemma for_each_returns:
  assumes "\<forall>k\<in>set ks. \<forall>h. \<exists>h'. body k h = Inr h'"
  shows "\<exists>h'. for_each body ks h = Inr h'"
  using assms
proof (induction ks arbitrary: h)
  case Nil
  show ?case by simp
next
  case (Cons k ks)
  then obtain h1 where "body k h = Inr h1" by (meson list.set_intros(1))
  moreover from Cons obtain h2 where "for_each body ks h1 = Inr h2" by (meson list.set_intros(2))
  ultimately show ?case by simp
qed

lemma indices_ok_Nil [simp]: "indices_ok [] count"
  by (simp add: indices_ok_def)

lemma expanded_Nil [simp]: "length (expanded [] count) = count"
  by (simp add: expanded_def)

lemma MatrixView_assign_outcome:
  "MatrixView_assign a b h =
     (if getRows a = getRows b \<and> getCols a = getCols b
      then Inr (fold (\<lambda>j. std_memcpy (getData a + j * getLd a) (getData b + j * getLd b)
                                      (getRows a)) [0..<getCols a] h)
      else Inl (AssertionFailed h))"
  by (simp add: MatrixView_assign_def)

subsection \<open>Columns\<close>

lemma reorderColumnsByVectors_aborts:
  assumes "getRows b \<noteq> getRows a \<or> \<not> indices_ok vToCols (getCols a)
           \<or> \<not> indices_ok vcols (getCols b)
           \<or> length (expanded vToCols (getCols a)) \<noteq> length (expanded vcols (getCols b))"
  shows "reorderColumnsByVectors a vToCols b vcols h = Inl (AssertionFailed h)"
proof (cases "getRows b = getRows a")
  case False
  then show ?thesis by (simp add: reorderColumnsByVectors_def)
next
  case rows: True
  show ?thesis
  proof (cases "vToCols = [] \<and> vcols = []")
    case True
    with assms rows have "getCols a \<noteq> getCols b" by auto
    with True rows show ?thesis
      by (simp add: reorderColumnsByVectors_def generic_assign_def MatrixView_assign_def)
  next
    case False
    then have "vToCols \<noteq> [] \<or> vcols \<noteq> []" by simp
    from reorderColumnsByVectors_cases [OF rows this, of h] assms rows show ?thesis
      by auto
  qed
qed

lemma reorderColumnsByVectors_outcome:
  "reorderColumnsByVectors a vToCols b vcols h = Inl (AssertionFailed h)
   \<or> (\<exists>h'. reorderColumnsByVectors a vToCols b vcols h = Inr h')"
proof (cases "getRows b = getRows a")
  case False
  then show ?thesis by (simp add: reorderColumnsByVectors_def)
next
  case rows: True
  show ?thesis
  proof (cases "vToCols = [] \<and> vcols = []")
    case True
    with rows show ?thesis
      by (simp add: reorderColumnsByVectors_def generic_assign_def MatrixView_assign_def)
  next
    case False
    then have "vToCols \<noteq> [] \<or> vcols \<noteq> []" by simp
    from reorderColumnsByVectors_cases [OF rows this, of h] show ?thesis
      by (simp split: if_splits)
  qed
qed

subsection \<open>Rows\<close>

lemma for_each_row_copy_returns:
  assumes "getCols b = getCols a" and "\<forall>k<n. sR ! k < getRows b \<and> dR ! k < getRows a"
  shows "\<exists>h'. for_each (\<lambda>i. row_copy b (sR ! i) a (dR ! i)) [0..<n] h = Inr h'"
  using assms by (intro for_each_returns) (simp add: row_copy_returns)

lemma reorderRowsByVectors_aborts:
  assumes "getCols b \<noteq> getCols a \<or> \<not> indices_ok vToRows (getRows a)
           \<or> \<not> indices_ok vrows (getRows b)
           \<or> length (expanded vToRows (getRows a)) \<noteq> length (expanded vrows (getRows b))"
  shows "reorderRowsByVectors a vToRows b vrows h = Inl (AssertionFailed h)"
proof (cases "getCols b = getCols a")
  case False
  then show ?thesis by (simp add: reorderRowsByVectors_def)
next
  case cols: True
  show ?thesis
  proof (cases "vToRows = [] \<and> vrows = []")
    case True
    with assms cols have "getRows a \<noteq> getRows b" by auto
    with True cols show ?thesis
      by (simp add: reorderRowsByVectors_def generic_assign_def MatrixView_assign_def)
  next
    case False
    then have "vToRows \<noteq> [] \<or> vrows \<noteq> []" by simp
    from reorderRowsByVectors_cases [OF cols this, of h] assms cols show ?thesis
      by auto
  qed
qed

lemma reorderRowsByVectors_outcome:
  "reorderRowsByVectors a vToRows b vrows h = Inl (AssertionFailed h)
   \<or> (\<exists>h'. reorderRowsByVectors a vToRows b vrows h = Inr h')"
proof (cases "getCols b = getCols a")
  case False
  then show ?thesis by (simp add: reorderRowsByVectors_def)
next
  case cols: True
  show ?thesis
  proof (cases "vToRows = [] \<and> vrows = []")
    case True
    with cols show ?thesis
      by (simp add: reorderRowsByVectors_def generic_assign_def MatrixView_assign_def)
  next
    case False
    then have ne: "vToRows \<noteq> [] \<or> vrows \<noteq> []" by simp
    let ?dR = "expanded vToRows (getRows a)" and ?sR = "expanded vrows (getRows b)"
    show ?thesis
    proof (cases "indices_ok vToRows (getRows a) \<and> length vToRows \<le> getRows a
         \<and> indices_ok vrows (getRows b) \<and> length vrows \<le> getRows b
         \<and> length ?dR = length ?sR")
      case True
      then have "\<forall>k<length ?sR. ?sR ! k < getRows b \<and> ?dR ! k < getRows a"
        by (simp add: expanded_in_bounds)
      with cols have "\<exists>h'. for_each (\<lambda>i. row_copy b (?sR ! i) a (?dR ! i)) [0..<length ?sR] h = Inr h'"
        by (rule for_each_row_copy_returns)
      with True show ?thesis
        unfolding reorderRowsByVectors_cases [OF cols ne] by simp
    next
      case False
      then show ?thesis
        unfolding reorderRowsByVectors_cases [OF cols ne] by auto
    qed
  qed
qed

subsection \<open>Rows and columns\<close>

lemma assignByVectors_general:
  assumes "\<not> (vToRows = [] \<and> vrows = [])" and "\<not> (vToCols = [] \<and> vcols = [])"
  shows "assignByVectors a vToRows vToCols b vrows vcols h =
     (if indices_ok vToRows (getRows a) \<and> length vToRows \<le> getRows a
         \<and> indices_ok vToCols (getCols a) \<and> length vToCols \<le> getCols a
         \<and> indices_ok vrows (getRows b) \<and> length vrows \<le> getRows b
         \<and> indices_ok vcols (getCols b) \<and> length vcols \<le> getCols b
         \<and> length (expanded vToRows (getRows a)) = length (expanded vrows (getRows b))
         \<and> length (expanded vToCols (getCols a)) = length (expanded vcols (getCols b))
      then Inr (fold (\<lambda>i. fold (\<lambda>j. copy_double
                                      (addr a (expanded vToRows (getRows a) ! i)
                                              (expanded vToCols (getCols a) ! j))
                                      (addr b (expanded vrows (getRows b) ! i)
                                              (expanded vcols (getCols b) ! j)))
                                [0..<length (expanded vcols (getCols b))])
                     [0..<length (expanded vrows (getRows b))] h)
      else Inl (AssertionFailed h))"
proof -
  let ?dR = "expanded vToRows (getRows a)" and ?sR = "expanded vrows (getRows b)"
  let ?dC = "expanded vToCols (getCols a)" and ?sC = "expanded vcols (getCols b)"
  have posR: "0 < length ?sR" if "length ?dR = length ?sR"
    using assms(1) that by (cases vToRows; cases vrows) (auto simp: expanded_def split: if_splits)
  have posC: "0 < length ?sC" if "length ?dC = length ?sC"
    using assms(2) that by (cases vToCols; cases vcols) (auto simp: expanded_def split: if_splits)
  have b1: "\<not> (length vToRows = 0 \<and> length vToCols = 0 \<and> length vrows = 0 \<and> length vcols = 0)"
    and b2: "\<not> (length vToRows = 0 \<and> length vrows = 0)"
    and b3: "\<not> (length vToCols = 0 \<and> length vcols = 0)"
    using assms by auto
  have unfold: "assignByVectors a vToRows vToCols b vrows vcols h =
        (case index_vector vToRows (getRows a) of
           None \<Rightarrow> Inl (AssertionFailed h)
         | Some vpToRows \<Rightarrow>
        (case index_vector vToCols (getCols a) of
           None \<Rightarrow> Inl (AssertionFailed h)
         | Some vpToCols \<Rightarrow>
        (case index_vector vrows (getRows b) of
           None \<Rightarrow> Inl (AssertionFailed h)
         | Some vpRows \<Rightarrow>
        (case index_vector vcols (getCols b) of
           None \<Rightarrow> Inl (AssertionFailed h)
         | Some vpCols \<Rightarrow>
              if length vpToRows = length vpRows \<and> length vpToCols = length vpCols
                 \<and> length vpRows * length vpCols > 0
              then Inr (fold (\<lambda>i. fold (\<lambda>j. copy_double (addr a (vpToRows ! i) (vpToCols ! j))
                                                        (addr b (vpRows ! i) (vpCols ! j)))
                                       [0..<length vpCols])
                             [0..<length vpRows] h)
              else Inl (AssertionFailed h)))))"
    unfolding assignByVectors_def Let_def using b1 b2 b3 by (simp only: if_False simp_thms)
  show ?thesis
    unfolding unfold using posR posC by (auto simp: index_vector_eq)
qed

lemma assignByVectors_aborts:
  assumes "\<not> indices_ok vToRows (getRows a) \<or> \<not> indices_ok vToCols (getCols a)
           \<or> \<not> indices_ok vrows (getRows b) \<or> \<not> indices_ok vcols (getCols b)
           \<or> length (expanded vToRows (getRows a)) \<noteq> length (expanded vrows (getRows b))
           \<or> length (expanded vToCols (getCols a)) \<noteq> length (expanded vcols (getCols b))"
  shows "assignByVectors a vToRows vToCols b vrows vcols h = Inl (AssertionFailed h)"
proof (cases "vToRows = [] \<and> vrows = []")
  case rows_all: True
  show ?thesis
  proof (cases "vToCols = [] \<and> vcols = []")
    case True
    with rows_all assms have "getRows a \<noteq> getRows b \<or> getCols a \<noteq> getCols b" by auto
    with True rows_all show ?thesis
      by (auto simp: assignByVectors_def generic_assign_def MatrixView_assign_def)
  next
    case False
    with rows_all have "assignByVectors a vToRows vToCols b vrows vcols h
                        = reorderColumnsByVectors a vToCols b vcols h"
      by (auto simp: assignByVectors_def)
    moreover have "reorderColumnsByVectors a vToCols b vcols h = Inl (AssertionFailed h)"
      using assms rows_all by (intro reorderColumnsByVectors_aborts) auto
    ultimately show ?thesis by simp
  qed
next
  case rows_given: False
  show ?thesis
  proof (cases "vToCols = [] \<and> vcols = []")
    case True
    with rows_given have "assignByVectors a vToRows vToCols b vrows vcols h
                        = reorderRowsByVectors a vToRows b vrows h"
      by (auto simp: assignByVectors_def)
    moreover have "reorderRowsByVectors a vToRows b vrows h = Inl (AssertionFailed h)"
      using assms True by (intro reorderRowsByVectors_aborts) auto
    ultimately show ?thesis by simp
  next
    case False
    from assignByVectors_general [OF rows_given False, of a b h] assms show ?thesis
      by auto
  qed
qed

lemma assignByVectors_outcome:
  "assignByVectors a vToRows vToCols b vrows vcols h = Inl (AssertionFailed h)
   \<or> (\<exists>h'. assignByVectors a vToRows vToCols b vrows vcols h = Inr h')"
proof (cases "vToRows = [] \<and> vrows = []")
  case rows_all: True
  show ?thesis
  proof (cases "vToCols = [] \<and> vcols = []")
    case True
    with rows_all show ?thesis
      by (auto simp: assignByVectors_def generic_assign_def MatrixView_assign_def)
  next
    case False
    with rows_all have "assignByVectors a vToRows vToCols b vrows vcols h
                        = reorderColumnsByVectors a vToCols b vcols h"
      by (auto simp: assignByVectors_def)
    with reorderColumnsByVectors_outcome [of a vToCols b vcols h] show ?thesis by simp
  qed
next
  case rows_given: False
  show ?thesis
  proof (cases "vToCols = [] \<and> vcols = []")
    case True
    with rows_given have "assignByVectors a vToRows vToCols b vrows vcols h
                        = reorderRowsByVectors a vToRows b vrows h"
      by (auto simp: assignByVectors_def)
    with reorderRowsByVectors_outcome [of a vToRows b vrows h] show ?thesis by simp
  next
    case False
    from assignByVectors_general [OF rows_given False, of a b h] show ?thesis
      by (simp split: if_splits)
  qed
qed

section \<open>Checks before writes\<close>

text \<open>
  C9. In \<open>reorderColumnsByVectors\<close>, \<open>reorderRowsByVectors\<close> and \<open>assignByVectors\<close> every
  check comes before the first write: whenever one of these calls does not return, it
  has stopped at an assertion, and the store at that moment is the store the call
  started with.
\<close>

theorem index_vector_calls_atomic:
  "(reorderColumnsByVectors a vToCols b vcols h = Inl err \<longrightarrow> err = AssertionFailed h)
   \<and> (reorderRowsByVectors a vToRows b vrows h = Inl err \<longrightarrow> err = AssertionFailed h)
   \<and> (assignByVectors a vToRows vToCols b vrows vcols h = Inl err \<longrightarrow> err = AssertionFailed h)"
  using reorderColumnsByVectors_outcome [of a vToCols b vcols h]
    reorderRowsByVectors_outcome [of a vToRows b vrows h]
    assignByVectors_outcome [of a vToRows vToCols b vrows vcols h]
  by auto

theorem index_vector_calls_atomic_witness:
  "reorderColumnsByVectors (Matrix 0 2 2) [0, 1] (Matrix 10 2 2) [0, 7] (\<lambda>x. real x)
     = Inl (AssertionFailed (\<lambda>x. real x))
   \<and> reorderRowsByVectors (Matrix 0 2 2) [0, 1] (Matrix 10 2 2) [0, 7] (\<lambda>x. real x)
     = Inl (AssertionFailed (\<lambda>x. real x))
   \<and> assignByVectors (Matrix 0 2 2) [0, 1] [1] (Matrix 10 2 2) [0, 1] [7] (\<lambda>x. real x)
     = Inl (AssertionFailed (\<lambda>x. real x))"
proof -
  let ?D = "Matrix 0 2 2" and ?S = "Matrix 10 2 2" and ?h = "\<lambda>x. real x"
  obtain e1 where e1: "reorderColumnsByVectors ?D [0, 1] ?S [0, 7] ?h = Inl e1"
    by (simp add: reorderColumnsByVectors_def index_vector_def Matrix_def)
  obtain e2 where e2: "reorderRowsByVectors ?D [0, 1] ?S [0, 7] ?h = Inl e2"
    by (simp add: reorderRowsByVectors_def index_vector_def Matrix_def)
  obtain e3 where e3: "assignByVectors ?D [0, 1] [1] ?S [0, 1] [7] ?h = Inl e3"
    by (simp add: assignByVectors_def index_vector_def Matrix_def)
  from e1 index_vector_calls_atomic
    [where a = ?D and vToCols = "[0, 1]" and b = ?S and vcols = "[0, 7]" and h = ?h and err = e1]
  have "e1 = AssertionFailed ?h" by blast
  moreover from e2 index_vector_calls_atomic
    [where a = ?D and vToRows = "[0, 1]" and b = ?S and vrows = "[0, 7]" and h = ?h and err = e2]
  have "e2 = AssertionFailed ?h" by blast
  moreover from e3 index_vector_calls_atomic
    [where a = ?D and vToRows = "[0, 1]" and vToCols = "[1]" and b = ?S and vrows = "[0, 1]"
       and vcols = "[7]" and h = ?h and err = e3]
  have "e3 = AssertionFailed ?h" by blast
  ultimately show ?thesis using e1 e2 e3 by simp
qed

text \<open>
  C6. Every violated precondition aborts the call at an assertion, before any write:
  an assignment between matrices of different dimensions (both class operators), an
  in-place transpose of a matrix that is not square, and in each of the three
  index-vector functions an index that is out of range for its matrix or two index
  lists (an empty list standing for all indices) of different lengths. An index out of
  range therefore never reaches an element access.
\<close>

theorem precondition_violations_abort:
  "(getRows dst \<noteq> getRows arg \<or> getCols dst \<noteq> getCols arg
      \<longrightarrow> Matrix_assign dst arg h = Inl (AssertionFailed h)
          \<and> MatrixView_assign dst arg h = Inl (AssertionFailed h))
   \<and> (getRows M \<noteq> getCols M \<longrightarrow> transpose_inplace M h = Inl (AssertionFailed h))
   \<and> (\<not> indices_ok vToCols (getCols a) \<or> \<not> indices_ok vcols (getCols b)
        \<or> length (expanded vToCols (getCols a)) \<noteq> length (expanded vcols (getCols b))
      \<longrightarrow> reorderColumnsByVectors a vToCols b vcols h = Inl (AssertionFailed h))
   \<and> (\<not> indices_ok vToRows (getRows a) \<or> \<not> indices_ok vrows (getRows b)
        \<or> length (expanded vToRows (getRows a)) \<noteq> length (expanded vrows (getRows b))
      \<longrightarrow> reorderRowsByVectors a vToRows b vrows h = Inl (AssertionFailed h))
   \<and> (\<not> indices_ok vToRows (getRows a) \<or> \<not> indices_ok vToCols (getCols a)
        \<or> \<not> indices_ok vrows (getRows b) \<or> \<not> indices_ok vcols (getCols b)
        \<or> length (expanded vToRows (getRows a)) \<noteq> length (expanded vrows (getRows b))
        \<or> length (expanded vToCols (getCols a)) \<noteq> length (expanded vcols (getCols b))
      \<longrightarrow> assignByVectors a vToRows vToCols b vrows vcols h = Inl (AssertionFailed h))"
proof (intro conjI impI)
  assume "getRows dst \<noteq> getRows arg \<or> getCols dst \<noteq> getCols arg"
  then show "Matrix_assign dst arg h = Inl (AssertionFailed h)"
    and "MatrixView_assign dst arg h = Inl (AssertionFailed h)"
    by (auto simp: Matrix_assign_def MatrixView_assign_def)
next
  assume "getRows M \<noteq> getCols M"
  then show "transpose_inplace M h = Inl (AssertionFailed h)"
    by (simp add: transpose_inplace_def)
next
  assume "\<not> indices_ok vToCols (getCols a) \<or> \<not> indices_ok vcols (getCols b)
        \<or> length (expanded vToCols (getCols a)) \<noteq> length (expanded vcols (getCols b))"
  then show "reorderColumnsByVectors a vToCols b vcols h = Inl (AssertionFailed h)"
    by (intro reorderColumnsByVectors_aborts) auto
next
  assume "\<not> indices_ok vToRows (getRows a) \<or> \<not> indices_ok vrows (getRows b)
        \<or> length (expanded vToRows (getRows a)) \<noteq> length (expanded vrows (getRows b))"
  then show "reorderRowsByVectors a vToRows b vrows h = Inl (AssertionFailed h)"
    by (intro reorderRowsByVectors_aborts) auto
next
  assume "\<not> indices_ok vToRows (getRows a) \<or> \<not> indices_ok vToCols (getCols a)
        \<or> \<not> indices_ok vrows (getRows b) \<or> \<not> indices_ok vcols (getCols b)
        \<or> length (expanded vToRows (getRows a)) \<noteq> length (expanded vrows (getRows b))
        \<or> length (expanded vToCols (getCols a)) \<noteq> length (expanded vcols (getCols b))"
  then show "assignByVectors a vToRows vToCols b vrows vcols h = Inl (AssertionFailed h)"
    by (rule assignByVectors_aborts)
qed

theorem precondition_violations_abort_witness:
  "Matrix_assign (Matrix 0 2 2) (Matrix 10 3 2) (\<lambda>x. real x) = Inl (AssertionFailed (\<lambda>x. real x))
   \<and> MatrixView_assign (Matrix 0 2 2) (Matrix 10 3 2) (\<lambda>x. real x)
       = Inl (AssertionFailed (\<lambda>x. real x))
   \<and> transpose_inplace (Matrix 0 2 3) (\<lambda>x. real x) = Inl (AssertionFailed (\<lambda>x. real x))
   \<and> reorderColumnsByVectors (Matrix 0 2 2) [0, 2] (Matrix 10 2 2) [0, 1] (\<lambda>x. real x)
       = Inl (AssertionFailed (\<lambda>x. real x))
   \<and> reorderRowsByVectors (Matrix 0 2 2) [] (Matrix 10 2 2) [0] (\<lambda>x. real x)
       = Inl (AssertionFailed (\<lambda>x. real x))
   \<and> assignByVectors (Matrix 0 2 2) [0] [0, 1] (Matrix 10 2 2) [0] [1, 2] (\<lambda>x. real x)
       = Inl (AssertionFailed (\<lambda>x. real x))"
proof -
  let ?D = "Matrix 0 2 2" and ?S = "Matrix 10 2 2" and ?h = "\<lambda>x. real x"
  have sel: "getRows ?D = 2" "getCols ?D = 2" "getRows ?S = 2" "getCols ?S = 2"
    "getRows (Matrix 10 3 2) = 3" "getRows (Matrix 0 2 3) = 2" "getCols (Matrix 0 2 3) = 3"
    by (simp_all add: Matrix_def)
  note t = precondition_violations_abort
  have "Matrix_assign ?D (Matrix 10 3 2) ?h = Inl (AssertionFailed ?h)"
    "MatrixView_assign ?D (Matrix 10 3 2) ?h = Inl (AssertionFailed ?h)"
    using t [where dst = ?D and arg = "Matrix 10 3 2" and h = ?h] by (simp_all add: sel)
  moreover have "transpose_inplace (Matrix 0 2 3) ?h = Inl (AssertionFailed ?h)"
    using t [where M = "Matrix 0 2 3" and h = ?h] by (simp add: sel)
  moreover have "reorderColumnsByVectors ?D [0, 2] ?S [0, 1] ?h = Inl (AssertionFailed ?h)"
    using t [where a = ?D and vToCols = "[0, 2]" and b = ?S and vcols = "[0, 1]" and h = ?h]
    by (simp add: sel indices_ok_def)
  moreover have "reorderRowsByVectors ?D [] ?S [0] ?h = Inl (AssertionFailed ?h)"
    using t [where a = ?D and vToRows = "[]" and b = ?S and vrows = "[0]" and h = ?h]
    by (simp add: sel expanded_def)
  moreover have "assignByVectors ?D [0] [0, 1] ?S [0] [1, 2] ?h = Inl (AssertionFailed ?h)"
    using t [where a = ?D and vToRows = "[0]" and vToCols = "[0, 1]" and b = ?S
               and vrows = "[0]" and vcols = "[1, 2]" and h = ?h]
    by (simp add: sel indices_ok_def)
  ultimately show ?thesis by simp
qed

section \<open>In-place transposition\<close>

lemma std_swap_apply:
  "std_swap p q g x = (if x = q then g p else if x = p then g q else g x)"
  by (simp add: std_swap_def)

text \<open>
  The inner loop of the transposition, for row \<open>k\<close> after \<open>m\<close> swaps, over any
  addressing \<open>ad\<close> that gives different elements of the \<open>n\<close> by \<open>n\<close> square different
  addresses.
\<close>

lemma swap_row:
  assumes inj: "\<forall>i<n. \<forall>j<n. \<forall>i'<n. \<forall>j'<n. ad i j = ad i' j' \<longrightarrow> i = i' \<and> j = j'"
    and k: "k < n" and m: "m \<le> k"
  shows "\<forall>i<n. \<forall>j<n. fold (\<lambda>j. std_swap (ad k j) (ad j k)) [0..<m] g (ad i j)
         = (if (i = k \<and> j < m) \<or> (j = k \<and> i < m) then g (ad j i) else g (ad i j))"
  using m
proof (induction m)
  case 0
  show ?case by simp
next
  case (Suc m)
  let ?g' = "fold (\<lambda>j. std_swap (ad k j) (ad j k)) [0..<m] g"
  have mk: "m < k" and mn: "m < n" using Suc.prems k by simp_all
  have ih: "?g' (ad i j) = (if (i = k \<and> j < m) \<or> (j = k \<and> i < m) then g (ad j i)
                            else g (ad i j))" if "i < n" "j < n" for i j
    using Suc.IH mk that by simp
  show ?case
  proof (intro allI impI)
    fix i j assume ij: "i < n" "j < n"
    have e1: "ad i j = ad m k \<longleftrightarrow> i = m \<and> j = k"
      using inj ij mn k by blast
    have e2: "ad i j = ad k m \<longleftrightarrow> i = k \<and> j = m"
      using inj ij mn k by blast
    have "fold (\<lambda>j. std_swap (ad k j) (ad j k)) [0..<Suc m] g (ad i j)
          = (if i = m \<and> j = k then ?g' (ad k m)
             else if i = k \<and> j = m then ?g' (ad m k) else ?g' (ad i j))"
      by (simp add: std_swap_apply e1 e2)
    also have "\<dots> = (if (i = k \<and> j < Suc m) \<or> (j = k \<and> i < Suc m) then g (ad j i)
                       else g (ad i j))"
    proof -
      have a: "?g' (ad k m) = g (ad k m)" using ih [OF k mn] by simp
      have b: "?g' (ad m k) = g (ad m k)" using ih [OF mn k] mk by simp
      show ?thesis
        unfolding a b ih [OF ij] using mk by (auto simp: less_Suc_eq)
    qed
    finally show "fold (\<lambda>j. std_swap (ad k j) (ad j k)) [0..<Suc m] g (ad i j)
          = (if (i = k \<and> j < Suc m) \<or> (j = k \<and> i < Suc m) then g (ad j i) else g (ad i j))" .
  qed
qed

lemma swap_row_frame:
  assumes "\<forall>i<n. \<forall>j<n. x \<noteq> ad i j" and "k < n" and "m \<le> k"
  shows "fold (\<lambda>j. std_swap (ad k j) (ad j k)) [0..<m] g x = g x"
  using assms(3)
proof (induction m)
  case 0
  show ?case by simp
next
  case (Suc m)
  then have "m < n" "m \<le> k" using assms(2) by simp_all
  with assms(1,2) have "x \<noteq> ad k m" "x \<noteq> ad m k" by blast+
  with Suc \<open>m \<le> k\<close> show ?case by (simp add: std_swap_apply)
qed

lemma swap_rows:
  assumes inj: "\<forall>i<n. \<forall>j<n. \<forall>i'<n. \<forall>j'<n. ad i j = ad i' j' \<longrightarrow> i = i' \<and> j = j'"
    and k: "k \<le> n"
  shows "\<forall>i<n. \<forall>j<n.
           fold (\<lambda>i. fold (\<lambda>j. std_swap (ad i j) (ad j i)) [0..<i]) [0..<k] h (ad i j)
           = (if i < k \<and> j < k then h (ad j i) else h (ad i j))"
  using k
proof (induction k)
  case 0
  show ?case by simp
next
  case (Suc k)
  let ?g = "fold (\<lambda>i. fold (\<lambda>j. std_swap (ad i j) (ad j i)) [0..<i]) [0..<k] h"
  have kn: "k < n" using Suc.prems by simp
  have ih: "?g (ad i j) = (if i < k \<and> j < k then h (ad j i) else h (ad i j))"
    if "i < n" "j < n" for i j
    using Suc.IH kn that by simp
  have row: "fold (\<lambda>j. std_swap (ad k j) (ad j k)) [0..<k] ?g (ad i j)
         = (if (i = k \<and> j < k) \<or> (j = k \<and> i < k) then ?g (ad j i) else ?g (ad i j))"
    if "i < n" "j < n" for i j
    using swap_row [OF inj kn order_refl, of ?g] that by blast
  show ?case
  proof (intro allI impI)
    fix i j assume ij: "i < n" "j < n"
    have "fold (\<lambda>i. fold (\<lambda>j. std_swap (ad i j) (ad j i)) [0..<i]) [0..<Suc k] h (ad i j)
          = fold (\<lambda>j. std_swap (ad k j) (ad j k)) [0..<k] ?g (ad i j)"
      by simp
    also have "\<dots> = (if (i = k \<and> j < k) \<or> (j = k \<and> i < k) then ?g (ad j i) else ?g (ad i j))"
      using row [OF ij] by simp
    also have "\<dots> = (if i < Suc k \<and> j < Suc k then h (ad j i) else h (ad i j))"
      using ij by (auto simp: ih less_Suc_eq)
    finally show "fold (\<lambda>i. fold (\<lambda>j. std_swap (ad i j) (ad j i)) [0..<i]) [0..<Suc k] h (ad i j)
          = (if i < Suc k \<and> j < Suc k then h (ad j i) else h (ad i j))" .
  qed
qed

lemma swap_rows_frame:
  assumes "\<forall>i<n. \<forall>j<n. x \<noteq> ad i j" and "k \<le> n"
  shows "fold (\<lambda>i. fold (\<lambda>j. std_swap (ad i j) (ad j i)) [0..<i]) [0..<k] h x = h x"
  using assms(2)
proof (induction k)
  case 0
  show ?case by simp
next
  case (Suc k)
  then have "k < n" by simp
  with Suc assms(1) show ?case by (simp add: swap_row_frame [where n = n])
qed

text \<open>
  C7. For every square matrix \<open>M\<close> whose columns are apart, the in-place transpose
  returns a store in which \<open>M(i,j)\<close> holds what \<open>M(j,i)\<close> held, and applying it again to
  that store returns exactly the store it started from.
\<close>

theorem transpose_twice:
  assumes "getRows M = getCols M" and "columns_apart M"
  shows "\<exists>h1. transpose_inplace M h = Inr h1
           \<and> transpose_inplace M h1 = Inr h
           \<and> (\<forall>i<getRows M. \<forall>j<getRows M. elem M i j h1 = elem M j i h)"
proof -
  let ?n = "getRows M"
  let ?T = "\<lambda>g. fold (\<lambda>i. fold (\<lambda>j. std_swap (addr M i j) (addr M j i)) [0..<i]) [0..<?n] g"
  have inj: "\<forall>i<?n. \<forall>j<?n. \<forall>i'<?n. \<forall>j'<?n. addr M i j = addr M i' j' \<longrightarrow> i = i' \<and> j = j'"
    using addr_inj [OF assms(2)] by blast
  have vals: "?T g (addr M i j) = g (addr M j i)" if "i < ?n" "j < ?n" for g i j
    using swap_rows [OF inj order_refl, of g] that by simp
  have frame: "?T g x = g x" if "x \<notin> in_view M" for g x
  proof -
    have "\<forall>i<?n. \<forall>j<?n. x \<noteq> addr M i j"
      using that assms(1) by (auto simp: in_view_iff)
    then show ?thesis by (rule swap_rows_frame) simp
  qed
  have restored: "?T (?T h) = h"
  proof (rule ext)
    fix x
    show "?T (?T h) x = h x"
    proof (cases "x \<in> in_view M")
      case True
      then obtain i j where ij: "i < ?n" "j < ?n" "x = addr M i j"
        using assms(1) by (auto simp: in_view_iff)
      then show ?thesis by (simp add: vals)
    next
      case False
      then show ?thesis by (simp add: frame)
    qed
  qed
  have res: "transpose_inplace M g = Inr (?T g)" for g
    using assms(1) by (simp add: transpose_inplace_def)
  have "\<forall>i<?n. \<forall>j<?n. elem M i j (?T h) = elem M j i h"
    by (simp add: elem_def vals)
  with res [of h] res [of "?T h"] restored show ?thesis by simp
qed

theorem transpose_twice_witness:
  "getRows (Matrix 0 2 2) = getCols (Matrix 0 2 2) \<and> columns_apart (Matrix 0 2 2)
   \<and> (\<exists>h1. transpose_inplace (Matrix 0 2 2) (\<lambda>x. real x) = Inr h1
          \<and> transpose_inplace (Matrix 0 2 2) h1 = Inr (\<lambda>x. real x)
          \<and> elem (Matrix 0 2 2) 0 1 h1 = 1 \<and> elem (Matrix 0 2 2) 1 0 h1 = 2)"
proof -
  let ?M = "Matrix 0 2 2" and ?h = "\<lambda>x. real x"
  have sq: "getRows ?M = getCols ?M" and apart: "columns_apart ?M"
    by (simp_all add: Matrix_def columns_apart_def)
  from transpose_twice [OF sq apart, of ?h] obtain h1 where
    a: "transpose_inplace ?M ?h = Inr h1" and b: "transpose_inplace ?M h1 = Inr ?h"
    and v: "\<forall>i<getRows ?M. \<forall>j<getRows ?M. elem ?M i j h1 = elem ?M j i ?h"
    by blast
  have "elem ?M 0 1 h1 = 1" "elem ?M 1 0 h1 = 2"
    using v [rule_format, of 0 1] v [rule_format, of 1 0]
    by (simp_all add: Matrix_def elem_def addr_def)
  with sq apart a b show ?thesis by blast
qed

section \<open>Rounding to a double\<close>

text \<open>
  Rounding to the nearest integer, ties to even, is monotone and odd, and it fixes
  the integers.
\<close>

lemma round_even_of_int [simp]: "round_even (of_int n) = n"
  by (simp add: round_even_def)

lemma round_even_cases: "round_even y = \<lfloor>y\<rfloor> \<or> round_even y = \<lfloor>y\<rfloor> + 1"
  by (simp add: round_even_def Let_def)

lemma round_even_mono:
  assumes "a \<le> b"
  shows "round_even a \<le> round_even b"
proof -
  have fl: "\<lfloor>a\<rfloor> \<le> \<lfloor>b\<rfloor>" using assms by (rule floor_mono)
  show ?thesis
  proof (cases "\<lfloor>a\<rfloor> = \<lfloor>b\<rfloor>")
    case False
    with fl have "\<lfloor>a\<rfloor> + 1 \<le> \<lfloor>b\<rfloor>" by simp
    moreover have "round_even a \<le> \<lfloor>a\<rfloor> + 1" using round_even_cases [of a] by auto
    moreover have "\<lfloor>b\<rfloor> \<le> round_even b" using round_even_cases [of b] by auto
    ultimately show ?thesis by simp
  next
    case True
    with assms show ?thesis
      by (auto simp: round_even_def Let_def)
  qed
qed

lemma round_even_minus: "round_even (- y) = - round_even y"
proof (cases "y = of_int \<lfloor>y\<rfloor>")
  case True
  then obtain n where "y = of_int n" ..
  then have "- y = of_int (- n)" by simp
  then have "round_even (- y) = - n" by (simp only: round_even_of_int)
  with \<open>y = of_int n\<close> show ?thesis by simp
next
  case False
  then have c: "\<lceil>y\<rceil> = \<lfloor>y\<rfloor> + 1"
    by (metis ceiling_altdef)
  have f: "\<lfloor>- y\<rfloor> = - \<lfloor>y\<rfloor> - 1"
    using c by (simp add: floor_minus)
  show ?thesis
    unfolding round_even_def Let_def f
    by (auto simp: algebra_simps)
qed

text \<open>\<open>ilog2 x\<close> is the binary exponent of a positive \<open>x\<close>.\<close>

lemma ilog2_bounds:
  assumes "0 < x"
  shows "2 powi ilog2 x \<le> x" and "x < 2 powi (ilog2 x + 1)"
proof -
  have "2 powi ilog2 x \<le> x \<and> x < 2 powi (ilog2 x + 1)"
  proof (cases "1 \<le> x")
    case True
    let ?n = "\<lfloor>x\<rfloor>"
    from True have n: "0 < ?n" by simp
    from bitlen_bounds [OF n] have b: "2 ^ nat (bitlen ?n - 1) \<le> ?n" "?n < 2 ^ nat (bitlen ?n)"
      by simp_all
    have k: "1 \<le> bitlen ?n" using n bitlen_eq_zero_iff [of ?n] bitlen_nonneg [of ?n] by linarith
    have e: "ilog2 x = bitlen ?n - 1" using True by (simp add: ilog2_def)
    have "(2::real) powi (bitlen ?n - 1) = 2 ^ nat (bitlen ?n - 1)"
      using k by (simp add: power_int_def)
    also have "\<dots> = of_int (2 ^ nat (bitlen ?n - 1))" by simp
    also have "\<dots> \<le> of_int ?n" using b(1) by (simp only: of_int_le_iff)
    also have "\<dots> \<le> x" by simp
    finally have lo: "2 powi (bitlen ?n - 1) \<le> x" .
    have "?n + 1 \<le> 2 ^ nat (bitlen ?n)" using b(2) by simp
    then have "real_of_int (?n + 1) \<le> of_int (2 ^ nat (bitlen ?n))" by (simp only: of_int_le_iff)
    then have A: "of_int ?n + 1 \<le> (2::real) ^ nat (bitlen ?n)" by simp
    have B: "x < of_int ?n + 1" by linarith
    have C: "(2::real) powi (bitlen ?n) = 2 ^ nat (bitlen ?n)"
      using k by (simp add: power_int_def)
    from A B have "x < 2 ^ nat (bitlen ?n)" by linarith
    then have "x < 2 powi (bitlen ?n)" by (simp only: C)
    with lo e show ?thesis by simp
  next
    case False
    let ?m = "\<lceil>1 / x\<rceil> - 1"
    from False assms have "1 < 1 / x" by simp
    then have m: "0 < ?m" by linarith
    have mlt: "of_int ?m < 1 / x" by linarith
    have mge: "1 / x \<le> of_int ?m + 1" by linarith
    from bitlen_bounds [OF m] have b: "2 ^ nat (bitlen ?m - 1) \<le> ?m" "?m < 2 ^ nat (bitlen ?m)"
      by simp_all
    have k: "1 \<le> bitlen ?m" using m bitlen_eq_zero_iff [of ?m] bitlen_nonneg [of ?m] by linarith
    have e: "ilog2 x = - bitlen ?m" using False by (simp add: ilog2_def)
    have "?m + 1 \<le> 2 ^ nat (bitlen ?m)" using b(2) by simp
    then have "real_of_int (?m + 1) \<le> of_int (2 ^ nat (bitlen ?m))" by (simp only: of_int_le_iff)
    then have "of_int ?m + 1 \<le> (2::real) ^ nat (bitlen ?m)" by simp
    with mge have "1 / x \<le> 2 ^ nat (bitlen ?m)" by linarith
    then have "1 / 2 ^ nat (bitlen ?m) \<le> x"
      using assms by (simp add: field_simps)
    moreover have "(2::real) powi (- bitlen ?m) = 1 / 2 ^ nat (bitlen ?m)"
      using k by (simp add: power_int_def field_simps)
    ultimately have lo: "2 powi (- bitlen ?m) \<le> x" by simp
    have "real_of_int (2 ^ nat (bitlen ?m - 1)) \<le> of_int ?m" using b(1) by (simp only: of_int_le_iff)
    then have "(2::real) ^ nat (bitlen ?m - 1) \<le> of_int ?m" by simp
    with mlt have "2 ^ nat (bitlen ?m - 1) < 1 / x" by linarith
    then have "x < 1 / 2 ^ nat (bitlen ?m - 1)"
      using assms by (simp add: field_simps)
    moreover have "(2::real) powi (- bitlen ?m + 1) = 1 / 2 ^ nat (bitlen ?m - 1)"
    proof -
      have "- bitlen ?m + 1 = - (bitlen ?m - 1)" by simp
      then have "(2::real) powi (- bitlen ?m + 1) = inverse (2 powi (bitlen ?m - 1))"
        by (simp only: power_int_minus)
      also have "(2::real) powi (bitlen ?m - 1) = 2 ^ nat (bitlen ?m - 1)"
        using k by (simp add: power_int_def)
      finally show ?thesis by (simp add: field_simps)
    qed
    ultimately have "x < 2 powi (- bitlen ?m + 1)" by simp
    with lo e show ?thesis by simp
  qed
  then show "2 powi ilog2 x \<le> x" and "x < 2 powi (ilog2 x + 1)" by simp_all
qed


lemma ilog2_mono:
  assumes "0 < x" and "x \<le> y"
  shows "ilog2 x \<le> ilog2 y"
proof (rule ccontr)
  assume "\<not> ilog2 x \<le> ilog2 y"
  then have "ilog2 y + 1 \<le> ilog2 x" by simp
  then have "(2::real) powi (ilog2 y + 1) \<le> 2 powi ilog2 x"
    by (rule power_int_increasing) simp
  also have "\<dots> \<le> x" using assms(1) by (rule ilog2_bounds)
  finally have "2 powi (ilog2 y + 1) \<le> y" using assms(2) by simp
  moreover have "y < 2 powi (ilog2 y + 1)" using assms by (intro ilog2_bounds) simp
  ultimately show False by simp
qed

text \<open>
  \<open>round_double\<close> is odd and monotone. So a difference that is at most a double \<open>t\<close>
  in absolute value is still at most \<open>t\<close> after it has been rounded.
\<close>

lemma round_double_minus: "round_double (- x) = - round_double x"
  by (simp add: round_double_def Let_def round_even_minus)

lemma round_double_pos:
  assumes "0 < x"
  shows "round_double x
         = of_int (round_even (x / 2 powi (max (ilog2 x) (- 1022) - 52)))
           * 2 powi (max (ilog2 x) (- 1022) - 52)"
  using assms by (simp add: round_double_def Let_def)

lemma round_double_upper:
  assumes "0 < x"
  shows "round_double x \<le> 2 powi (max (ilog2 x) (- 1022) + 1)"
proof -
  let ?e = "max (ilog2 x) (- 1022)"
  let ?q = "(2::real) powi (?e - 52)"
  have q: "0 < ?q" by (simp add: zero_less_power_int)
  have split: "(2::real) powi (?e + 1) = 2 ^ 53 * ?q"
  proof -
    have "?e + 1 = 53 + (?e - 52)" by simp
    then have "(2::real) powi (?e + 1) = 2 powi (53 + (?e - 52))" by (rule arg_cong)
    also have "\<dots> = 2 powi 53 * ?q" by (rule power_int_add) simp
    finally show ?thesis by simp
  qed
  have "x < 2 powi (ilog2 x + 1)" using assms by (rule ilog2_bounds)
  also have "\<dots> \<le> 2 powi (?e + 1)" by (rule power_int_increasing) simp_all
  finally have "x < 2 ^ 53 * ?q" by (simp only: split)
  then have "x / ?q \<le> 2 ^ 53" using q by (simp add: field_simps)
  then have "x / ?q \<le> of_int (2 ^ 53)" by simp
  then have "round_even (x / ?q) \<le> round_even (of_int (2 ^ 53))" by (rule round_even_mono)
  then have "round_even (x / ?q) \<le> 2 ^ 53" by (simp only: round_even_of_int)
  then have "real_of_int (round_even (x / ?q)) \<le> real_of_int (2 ^ 53)" by (simp only: of_int_le_iff)
  then have "real_of_int (round_even (x / ?q)) * ?q \<le> 2 ^ 53 * ?q"
    using q by simp
  then show ?thesis
    by (simp only: round_double_pos [OF assms] split)
qed

lemma round_double_lower:
  assumes "0 < x" and "- 1022 \<le> ilog2 x"
  shows "2 powi ilog2 x \<le> round_double x"
proof -
  let ?e = "ilog2 x"
  let ?q = "(2::real) powi (?e - 52)"
  from assms(2) have e: "max (ilog2 x) (- 1022) = ?e" by simp
  have q: "0 < ?q" by (simp add: zero_less_power_int)
  have split: "(2::real) powi ?e = 2 ^ 52 * ?q"
  proof -
    have "?e = 52 + (?e - 52)" by simp
    then have "(2::real) powi ?e = 2 powi (52 + (?e - 52))" by (rule arg_cong)
    also have "\<dots> = 2 powi 52 * ?q" by (rule power_int_add) simp
    finally show ?thesis by simp
  qed
  have "2 powi ?e \<le> x" using assms(1) by (rule ilog2_bounds)
  then have "2 ^ 52 * ?q \<le> x" by (simp only: split)
  then have "2 ^ 52 \<le> x / ?q" using q by (simp add: field_simps)
  then have "of_int (2 ^ 52) \<le> x / ?q" by simp
  then have "round_even (of_int (2 ^ 52)) \<le> round_even (x / ?q)" by (rule round_even_mono)
  then have "2 ^ 52 \<le> round_even (x / ?q)" by (simp only: round_even_of_int)
  then have "real_of_int (2 ^ 52) \<le> real_of_int (round_even (x / ?q))" by (simp only: of_int_le_iff)
  then have "2 ^ 52 * ?q \<le> real_of_int (round_even (x / ?q)) * ?q"
    using q by simp
  then show ?thesis
    by (simp only: round_double_pos [OF assms(1)] e split)
qed

lemma round_double_mono_pos:
  assumes "0 < x" and "x \<le> y"
  shows "round_double x \<le> round_double y"
proof -
  let ?ex = "max (ilog2 x) (- 1022)" and ?ey = "max (ilog2 y) (- 1022)"
  from assms have y: "0 < y" by simp
  have le: "?ex \<le> ?ey" using ilog2_mono [OF assms] by simp
  show ?thesis
  proof (cases "?ex = ?ey")
    case True
    let ?q = "(2::real) powi (?ex - 52)"
    have q: "0 < ?q" by (simp add: zero_less_power_int)
    have "x / ?q \<le> y / ?q" using assms(2) q by (simp add: divide_right_mono)
    then have "round_even (x / ?q) \<le> round_even (y / ?q)" by (rule round_even_mono)
    then have "real_of_int (round_even (x / ?q)) \<le> real_of_int (round_even (y / ?q))"
      by (simp only: of_int_le_iff)
    then have "real_of_int (round_even (x / ?q)) * ?q \<le> real_of_int (round_even (y / ?q)) * ?q"
      using q by simp
    then show ?thesis
      by (simp only: round_double_pos [OF assms(1)] round_double_pos [OF y] True [symmetric])
  next
    case False
    with le have lt: "?ex + 1 \<le> ?ey" by simp
    then have ey: "?ey = ilog2 y" "- 1022 \<le> ilog2 y" by (simp_all add: max_def split: if_splits)
    have "round_double x \<le> 2 powi (?ex + 1)" using assms(1) by (rule round_double_upper)
    also have "\<dots> \<le> 2 powi ?ey" using lt by (rule power_int_increasing) simp
    also have "\<dots> = 2 powi ilog2 y" by (simp only: ey(1))
    also have "\<dots> \<le> round_double y" using y ey(2) by (rule round_double_lower)
    finally show ?thesis .
  qed
qed

lemma round_double_zero [simp]: "round_double 0 = 0"
  by (simp add: round_double_def)

lemma round_double_nonneg:
  assumes "0 \<le> x"
  shows "0 \<le> round_double x"
proof (cases "x = 0")
  case True
  then show ?thesis by simp
next
  case False
  with assms have x: "0 < x" by simp
  let ?q = "(2::real) powi (max (ilog2 x) (- 1022) - 52)"
  have q: "0 < ?q" by (simp add: zero_less_power_int)
  have "0 \<le> x / ?q" using x q by simp
  then have "of_int 0 \<le> x / ?q" by simp
  then have "round_even (of_int 0) \<le> round_even (x / ?q)" by (rule round_even_mono)
  then have "0 \<le> round_even (x / ?q)" by (simp only: round_even_of_int)
  then have "0 \<le> real_of_int (round_even (x / ?q)) * ?q" using q by simp
  then show ?thesis by (simp only: round_double_pos [OF x])
qed

lemma round_double_abs: "\<bar>round_double x\<bar> = round_double \<bar>x\<bar>"
proof (cases "0 \<le> x")
  case True
  then show ?thesis using round_double_nonneg [of x] by simp
next
  case False
  then have "0 \<le> - x" by simp
  then have "0 \<le> round_double (- x)" by (rule round_double_nonneg)
  with False show ?thesis by (simp add: round_double_minus)
qed

lemma round_double_mono:
  assumes "x \<le> y"
  shows "round_double x \<le> round_double y"
proof -
  consider "0 < x" | "x \<le> 0" "0 \<le> y" | "y < 0" by linarith
  then show ?thesis
  proof cases
    case 1
    then show ?thesis using assms by (rule round_double_mono_pos)
  next
    case 2
    then have "0 \<le> round_double (- x)" "0 \<le> round_double y"
      by (simp_all add: round_double_nonneg)
    then show ?thesis by (simp add: round_double_minus)
  next
    case 3
    then have "0 < - y" "- y \<le> - x" using assms by simp_all
    then have "round_double (- y) \<le> round_double (- x)" by (rule round_double_mono_pos)
    then show ?thesis by (simp add: round_double_minus)
  qed
qed

lemma abs_round_double_le:
  assumes "\<bar>d\<bar> \<le> t" and "round_double t = t"
  shows "\<bar>round_double d\<bar> \<le> t"
proof -
  have "round_double \<bar>d\<bar> \<le> round_double t" using assms(1) by (rule round_double_mono)
  then show ?thesis by (simp add: round_double_abs assms(2))
qed

text \<open>Every integer up to \<open>2 ^ 53\<close> in absolute value is a double.\<close>

lemma round_double_of_int_pos:
  assumes "0 < n" and "n \<le> 2 ^ 53"
  shows "round_double (of_int n) = of_int n"
proof -
  let ?x = "real_of_int n"
  let ?e = "ilog2 ?x"
  from assms(1) have x: "0 < ?x" by simp
  have k: "1 \<le> bitlen n" using assms(1) bitlen_eq_zero_iff [of n] bitlen_nonneg [of n] by linarith
  have "?e = bitlen n - 1" using assms(1) by (simp add: ilog2_def)
  with k have e0: "0 \<le> ?e" by simp
  then have m: "max ?e (- 1022) = ?e" by simp
  have "2 powi ?e \<le> ?x" using x by (rule ilog2_bounds)
  also have "?x \<le> real_of_int (2 ^ 53)" using assms(2) by (simp only: of_int_le_iff)
  also have "\<dots> = 2 powi 53" by simp
  finally have "(2::real) powi ?e \<le> 2 powi 53" .
  then have e53: "?e \<le> 53" by (rule power_int_le_imp_le_exp [rotated]) simp_all
  have "of_int (round_even (?x / 2 powi (?e - 52))) * 2 powi (?e - 52) = ?x"
  proof (cases "?e \<le> 52")
    case True
    define k where "k = nat (52 - ?e)"
    have "?e - 52 = - int k" using True by (simp add: k_def)
    then have q: "(2::real) powi (?e - 52) = inverse (2 ^ k)"
      by (simp only: power_int_minus power_int_of_nat)
    have "?x / inverse (2 ^ k) = of_int (n * 2 ^ k)" by (simp add: field_simps)
    then have "round_even (?x / inverse (2 ^ k)) = n * 2 ^ k"
      by (simp only: round_even_of_int)
    then show ?thesis unfolding q by (simp add: field_simps)
  next
    case False
    with e53 have e: "?e = 53" by simp
    have "(2::real) powi 53 \<le> ?x" using ilog2_bounds(1) [OF x] by (simp only: e)
    then have "real_of_int (2 ^ 53) \<le> ?x" by simp
    then have "2 ^ 53 \<le> n" by (simp only: of_int_le_iff)
    with assms(2) have n: "n = 2 ^ 53" by simp
    have "?x / 2 = of_int (2 ^ 52)" unfolding n by simp
    then have "round_even (?x / 2) = 2 ^ 52" by (simp only: round_even_of_int)
    then show ?thesis unfolding e by (simp add: n)
  qed
  then show ?thesis
    by (simp only: round_double_pos [OF x] m)
qed

lemma round_double_of_int:
  assumes "\<bar>n\<bar> \<le> 2 ^ 53"
  shows "round_double (of_int n) = of_int n"
proof -
  consider "n = 0" | "0 < n" | "n < 0" by linarith
  then show ?thesis
  proof cases
    case 1
    then show ?thesis by simp
  next
    case 2
    with assms show ?thesis by (intro round_double_of_int_pos) simp_all
  next
    case 3
    with assms have "round_double (of_int (- n)) = of_int (- n)"
      by (intro round_double_of_int_pos) simp_all
    then show ?thesis by (simp add: round_double_minus)
  qed
qed

lemma is_double_of_int: "\<bar>n\<bar> \<le> 2 ^ 53 \<Longrightarrow> is_double (of_int n)"
  unfolding is_double_def by (rule round_double_of_int)

text \<open>
  \<open>sub(m, d)\<close> adds \<open>-1.0 * d\<close>. For a double \<open>d\<close> the product is exact, and the
  sum is the difference in doubles.
\<close>

lemma double_add_negated:
  assumes "is_double d"
  shows "double_add x (double_mul (- 1) d) = double_sub x d"
  using assms
  by (simp add: is_double_def double_add_def double_sub_def double_mul_def round_double_minus)

section \<open>Comparing two matrices\<close>

lemma isDiff_col_iff:
  "isDiff_col pp1 pp2 e tol h \<longleftrightarrow> (\<exists>i. pp1 + i < e \<and> \<bar>double_sub (h (pp1 + i)) (h (pp2 + i))\<bar> > tol)"
proof (induction pp1 pp2 e tol h rule: isDiff_col.induct)
  case (1 pp1 pp2 e tol h)
  show ?case
  proof (cases "pp1 < e")
    case False
    then show ?thesis by (subst isDiff_col.simps) simp
  next
    case True
    show ?thesis
    proof (cases "\<bar>double_sub (h pp1) (h pp2)\<bar> > tol")
      case d: True
      with True have "pp1 + 0 < e \<and> \<bar>double_sub (h (pp1 + 0)) (h (pp2 + 0))\<bar> > tol" by simp
      then have "\<exists>i. pp1 + i < e \<and> \<bar>double_sub (h (pp1 + i)) (h (pp2 + i))\<bar> > tol" by blast
      with True d show ?thesis by (subst isDiff_col.simps) simp
    next
      case d: False
      have "(\<exists>i. pp1 + 1 + i < e \<and> \<bar>double_sub (h (pp1 + 1 + i)) (h (pp2 + 1 + i))\<bar> > tol)
            \<longleftrightarrow> (\<exists>i. pp1 + i < e \<and> \<bar>double_sub (h (pp1 + i)) (h (pp2 + i))\<bar> > tol)" (is "?L \<longleftrightarrow> ?R")
      proof
        assume ?L
        then obtain i where "pp1 + 1 + i < e \<and> \<bar>double_sub (h (pp1 + 1 + i)) (h (pp2 + 1 + i))\<bar> > tol" by blast
        then have "pp1 + Suc i < e \<and> \<bar>double_sub (h (pp1 + Suc i)) (h (pp2 + Suc i))\<bar> > tol" by simp
        then show ?R by blast
      next
        assume ?R
        then obtain i where i: "pp1 + i < e" "\<bar>double_sub (h (pp1 + i)) (h (pp2 + i))\<bar> > tol" by blast
        with d obtain i' where "i = Suc i'" by (cases i) auto
        with i have "pp1 + 1 + i' < e \<and> \<bar>double_sub (h (pp1 + 1 + i')) (h (pp2 + 1 + i'))\<bar> > tol" by simp
        then show ?L by blast
      qed
      with "1.IH" [OF True] True d show ?thesis
        by (subst isDiff_col.simps) simp
    qed
  qed
qed

lemma isDiff_cols_result:
  assumes "0 < ld1 \<or> e \<le> p1"
  shows "isDiff_cols p1 p2 e r ld1 ld2 tol h
         = Inr (\<exists>k. p1 + k * ld1 < e
                 \<and> (\<exists>i<r. \<bar>double_sub (h (p1 + k * ld1 + i)) (h (p2 + k * ld2 + i))\<bar> > tol))"
  using assms
proof (induction p1 p2 e r ld1 ld2 tol h rule: isDiff_cols.induct)
  case (1 p1 p2 e r ld1 ld2 tol h)
  define D where "D q1 q2 \<longleftrightarrow> (\<exists>k. q1 + k * ld1 < e
                 \<and> (\<exists>i<r. \<bar>double_sub (h (q1 + k * ld1 + i)) (h (q2 + k * ld2 + i))\<bar> > tol))" for q1 q2
  have col: "isDiff_col p1 p2 (p1 + r) tol h \<longleftrightarrow> (\<exists>i<r. \<bar>double_sub (h (p1 + i)) (h (p2 + i))\<bar> > tol)"
    by (simp add: isDiff_col_iff)
  show ?case
  proof (cases "p1 < e")
    case False
    then have "\<not> D p1 p2" by (auto simp: D_def)
    with False show ?thesis
      unfolding D_def [symmetric] by (subst isDiff_cols.simps) simp
  next
    case True
    with "1.prems" have pos: "0 < ld1" by simp
    have step: "D p1 p2 \<longleftrightarrow> (\<exists>i<r. \<bar>double_sub (h (p1 + i)) (h (p2 + i))\<bar> > tol) \<or> D (p1 + ld1) (p2 + ld2)"
    proof
      assume "D p1 p2"
      then obtain k where k: "p1 + k * ld1 < e"
          "\<exists>i<r. \<bar>double_sub (h (p1 + k * ld1 + i)) (h (p2 + k * ld2 + i))\<bar> > tol"
        unfolding D_def by blast
      show "(\<exists>i<r. \<bar>double_sub (h (p1 + i)) (h (p2 + i))\<bar> > tol) \<or> D (p1 + ld1) (p2 + ld2)"
      proof (cases k)
        case 0
        with k show ?thesis by simp
      next
        case (Suc k')
        with k have "p1 + ld1 + k' * ld1 < e
           \<and> (\<exists>i<r. \<bar>double_sub (h (p1 + ld1 + k' * ld1 + i)) (h (p2 + ld2 + k' * ld2 + i))\<bar> > tol)"
          by (simp add: add.assoc)
        then have "D (p1 + ld1) (p2 + ld2)" unfolding D_def by blast
        then show ?thesis by simp
      qed
    next
      assume "(\<exists>i<r. \<bar>double_sub (h (p1 + i)) (h (p2 + i))\<bar> > tol) \<or> D (p1 + ld1) (p2 + ld2)"
      then show "D p1 p2"
      proof
        assume "\<exists>i<r. \<bar>double_sub (h (p1 + i)) (h (p2 + i))\<bar> > tol"
        with True have "p1 + 0 * ld1 < e
            \<and> (\<exists>i<r. \<bar>double_sub (h (p1 + 0 * ld1 + i)) (h (p2 + 0 * ld2 + i))\<bar> > tol)" by simp
        then show ?thesis unfolding D_def by blast
      next
        assume "D (p1 + ld1) (p2 + ld2)"
        then obtain k where "p1 + ld1 + k * ld1 < e
           \<and> (\<exists>i<r. \<bar>double_sub (h (p1 + ld1 + k * ld1 + i)) (h (p2 + ld2 + k * ld2 + i))\<bar> > tol)"
          unfolding D_def by blast
        then have "p1 + Suc k * ld1 < e
           \<and> (\<exists>i<r. \<bar>double_sub (h (p1 + Suc k * ld1 + i)) (h (p2 + Suc k * ld2 + i))\<bar> > tol)"
          by (simp add: add.assoc)
        then show ?thesis unfolding D_def by blast
      qed
    qed
    show ?thesis
    proof (cases "isDiff_col p1 p2 (p1 + r) tol h")
      case c: True
      with step col have "D p1 p2" by simp
      with True c show ?thesis
        unfolding D_def [symmetric] by (subst isDiff_cols.simps) simp
    next
      case c: False
      have "isDiff_cols (p1 + ld1) (p2 + ld2) e r ld1 ld2 tol h = Inr (D (p1 + ld1) (p2 + ld2))"
        unfolding D_def using "1.IH" [OF True c] pos by simp
      moreover have "D (p1 + ld1) (p2 + ld2) = D p1 p2"
        using step col c by blast
      ultimately show ?thesis
        unfolding D_def [symmetric] using True c pos by (subst isDiff_cols.simps) simp
    qed
  qed
qed

lemma isDiff_result:
  assumes "getRows m2 = getRows m1" and "getCols m2 = getCols m1"
    and "0 < getLd m1 \<or> getRows m1 = 0 \<or> getCols m1 = 0"
  shows "isDiff m1 m2 tol h
         = Inr (\<exists>i<getRows m1. \<exists>j<getCols m1. \<bar>double_sub (elem m1 i j h) (elem m2 i j h)\<bar> > tol)"
proof -
  let ?d1 = "getData m1" and ?d2 = "getData m2" and ?l1 = "getLd m1" and ?l2 = "getLd m2"
  let ?r = "getRows m1" and ?c = "getCols m1"
  have pre: "0 < ?l1 \<or> ?d1 + ?c * ?l1 \<le> ?d1" by auto
  have "(\<exists>k. ?d1 + k * ?l1 < ?d1 + ?c * ?l1
            \<and> (\<exists>i<?r. \<bar>double_sub (h (?d1 + k * ?l1 + i)) (h (?d2 + k * ?l2 + i))\<bar> > tol))
        \<longleftrightarrow> (\<exists>i<?r. \<exists>j<?c. \<bar>double_sub (elem m1 i j h) (elem m2 i j h)\<bar> > tol)" (is "?L \<longleftrightarrow> ?R")
  proof
    assume ?L
    then obtain k i where k: "k * ?l1 < ?c * ?l1" and i: "i < ?r"
      and d: "\<bar>double_sub (h (?d1 + k * ?l1 + i)) (h (?d2 + k * ?l2 + i))\<bar> > tol" by auto
    from k have "k < ?c" by simp
    moreover from d have "\<bar>double_sub (elem m1 i k h) (elem m2 i k h)\<bar> > tol"
      by (simp add: elem_def addr_def add.assoc add.commute)
    ultimately show ?R using i by blast
  next
    assume ?R
    then obtain i j where i: "i < ?r" and j: "j < ?c"
      and d: "\<bar>double_sub (elem m1 i j h) (elem m2 i j h)\<bar> > tol" by blast
    from i j assms(3) have "0 < ?l1" by auto
    with j have "?d1 + j * ?l1 < ?d1 + ?c * ?l1" by simp
    moreover from d have "\<bar>double_sub (h (?d1 + j * ?l1 + i)) (h (?d2 + j * ?l2 + i))\<bar> > tol"
      by (simp add: elem_def addr_def add.assoc add.commute)
    ultimately show ?L using i by blast
  qed
  then show ?thesis
    using assms(1,2) by (simp add: isDiff_def isDiff_cols_result [OF pre])
qed

text \<open>
  C8 (amended). For \<open>M1\<close> and \<open>M2\<close> of equal dimensions (the columns of \<open>M1\<close> apart),
  \<open>isDiff(M1, M2, tol)\<close> returns, and its value is true exactly when for some pair of
  corresponding elements the difference computed in doubles, that is the exact
  difference rounded to the nearest double, is larger than \<open>tol\<close> in absolute value.
  If it is true (and \<open>tol\<close> is a double), some pair of corresponding elements differs
  by more than \<open>tol\<close>. For every matrix \<open>M\<close>, \<open>isDiff(M, M, 0)\<close> returns false.
\<close>

theorem isDiff_spec:
  "(getRows m2 = getRows m1 \<and> getCols m2 = getCols m1 \<and> columns_apart m1
     \<longrightarrow> isDiff m1 m2 tol h
           = Inr (\<exists>i<getRows m1. \<exists>j<getCols m1.
                    \<bar>double_sub (elem m1 i j h) (elem m2 i j h)\<bar> > tol)
         \<and> (is_double tol \<and> isDiff m1 m2 tol h = Inr True
              \<longrightarrow> (\<exists>i<getRows m1. \<exists>j<getCols m1.
                     \<bar>elem m1 i j h - elem m2 i j h\<bar> > tol)))
   \<and> isDiff M M 0 h = Inr False"
proof -
  have rounded: "isDiff m1 m2 tol h
           = Inr (\<exists>i<getRows m1. \<exists>j<getCols m1.
                    \<bar>double_sub (elem m1 i j h) (elem m2 i j h)\<bar> > tol)"
    if a: "getRows m2 = getRows m1 \<and> getCols m2 = getCols m1 \<and> columns_apart m1"
  proof -
    from a have "0 < getLd m1 \<or> getRows m1 = 0 \<or> getCols m1 = 0"
      by (auto simp: columns_apart_def)
    with a show ?thesis by (simp add: isDiff_result)
  qed
  have exact: "\<exists>i<getRows m1. \<exists>j<getCols m1. \<bar>elem m1 i j h - elem m2 i j h\<bar> > tol"
    if a: "getRows m2 = getRows m1 \<and> getCols m2 = getCols m1 \<and> columns_apart m1"
      and b: "is_double tol \<and> isDiff m1 m2 tol h = Inr True"
  proof -
    from rounded [OF a] b obtain i j where ij: "i < getRows m1" "j < getCols m1"
      and d: "\<bar>double_sub (elem m1 i j h) (elem m2 i j h)\<bar> > tol"
      by auto
    have "\<bar>elem m1 i j h - elem m2 i j h\<bar> > tol"
    proof (rule ccontr)
      assume "\<not> \<bar>elem m1 i j h - elem m2 i j h\<bar> > tol"
      then have "\<bar>elem m1 i j h - elem m2 i j h\<bar> \<le> tol" by simp
      moreover from b have "round_double tol = tol" by (simp add: is_double_def)
      ultimately have "\<bar>round_double (elem m1 i j h - elem m2 i j h)\<bar> \<le> tol"
        by (rule abs_round_double_le)
      with d show False by (simp add: double_sub_def)
    qed
    with ij show ?thesis by blast
  qed
  have same: "isDiff M M 0 h = Inr False"
  proof -
    have pre: "0 < getLd M \<or> getData M + getCols M * getLd M \<le> getData M" by auto
    show ?thesis
      by (simp add: isDiff_def isDiff_cols_result [OF pre] double_sub_def)
  qed
  from rounded exact same show ?thesis by blast
qed

theorem isDiff_spec_witness:
  "columns_apart (Matrix 0 2 2) \<and> is_double (1 / 4)
   \<and> isDiff (Matrix 0 2 2) \<lparr>getData = 10, getRows = 2, getCols = 2, getLd = 3\<rparr> (1 / 4)
        ((\<lambda>x. 0)(13 := 1 / 2)) = Inr True
   \<and> (\<exists>i<2. \<exists>j<2.
         \<bar>elem (Matrix 0 2 2) i j ((\<lambda>x. 0)(13 := 1 / 2))
           - elem \<lparr>getData = 10, getRows = 2, getCols = 2, getLd = 3\<rparr> i j
               ((\<lambda>x. 0)(13 := 1 / 2))\<bar> > 1 / 4)
   \<and> isDiff (Matrix 0 2 2) \<lparr>getData = 10, getRows = 2, getCols = 2, getLd = 3\<rparr> (1 / 2)
        ((\<lambda>x. 0)(13 := 1 / 2)) = Inr False
   \<and> isDiff (Matrix 0 2 2) (Matrix 0 2 2) 0 ((\<lambda>x. 0)(13 := 1 / 2)) = Inr False"
proof -
  let ?A = "Matrix 0 2 2" and ?B = "\<lparr>getData = 10, getRows = 2, getCols = 2, getLd = 3\<rparr>"
  let ?h = "(\<lambda>x. 0::real)(13 := 1 / 2)"
  have sel: "getRows ?A = 2" "getCols ?A = 2" "getData ?A = 0" "getLd ?A = 2"
    by (simp_all add: Matrix_def)
  have apart: "columns_apart ?A" by (simp add: columns_apart_def sel)
  have half: "round_double (1 / 2) = 1 / 2"
    by (simp add: round_double_def ilog2_def round_even_def Let_def power_int_minus
                  compute_bitlen)
  have quarter: "is_double (1 / 4)"
    by (simp add: is_double_def round_double_def ilog2_def round_even_def Let_def
                  power_int_minus compute_bitlen)
  have el: "\<bar>double_sub (elem ?A i j ?h) (elem ?B i j ?h)\<bar> = (if i = 0 \<and> j = 1 then 1 / 2 else 0)"
    if "i < 2" "j < 2" for i j
  proof -
    from that have "i = 0 \<or> i = 1" "j = 0 \<or> j = 1" by auto
    then show ?thesis
      by (auto simp: elem_def addr_def sel double_sub_def round_double_minus half)
  qed
  have t: "\<exists>i<2. \<exists>j<2. \<bar>double_sub (elem ?A i j ?h) (elem ?B i j ?h)\<bar> > 1 / 4"
  proof -
    have "(0::nat) < 2 \<and> (1::nat) < 2
          \<and> \<bar>double_sub (elem ?A 0 1 ?h) (elem ?B 0 1 ?h)\<bar> > 1 / 4"
      by (simp add: el)
    then show ?thesis by blast
  qed
  have f: "\<not> (\<exists>i<2. \<exists>j<2. \<bar>double_sub (elem ?A i j ?h) (elem ?B i j ?h)\<bar> > 1 / 2)"
    by (auto simp: el)
  have true: "isDiff ?A ?B (1 / 4) ?h = Inr True"
    using isDiff_spec [of ?B ?A "1 / 4" ?h] apart t by (simp add: sel)
  have "\<exists>i<2. \<exists>j<2. \<bar>elem ?A i j ?h - elem ?B i j ?h\<bar> > 1 / 4"
    using isDiff_spec [of ?B ?A "1 / 4" ?h] apart quarter true by (simp add: sel)
  moreover have "isDiff ?A ?B (1 / 2) ?h = Inr False"
    using isDiff_spec [of ?B ?A "1 / 2" ?h] apart f by (simp add: sel)
  moreover have "isDiff ?A ?A 0 ?h = Inr False"
    using isDiff_spec [where M = ?A and h = ?h] by simp
  ultimately show ?thesis using apart quarter true by simp
qed

text \<open>
  The claim as stated fails: the converse does not hold of the exact difference. A 1 by
  1 matrix holding 1 and another holding \<open>- 1 / 2 ^ 60\<close> (both are doubles) differ by
  \<open>1 + 1 / 2 ^ 60\<close>, which is more than the tolerance 1, but the subtraction in doubles
  gives exactly 1 and \<open>isDiff\<close> returns false.
\<close>

theorem isDiff_exact_counterexample:
  "is_double 1 \<and> is_double (- (1 / 2 ^ 60))
   \<and> getRows (Matrix 1 1 1) = getRows (Matrix 0 1 1)
   \<and> getCols (Matrix 1 1 1) = getCols (Matrix 0 1 1)
   \<and> elem (Matrix 0 1 1) 0 0 ((\<lambda>x. 0)(0 := 1, 1 := - (1 / 2 ^ 60))) = 1
   \<and> elem (Matrix 1 1 1) 0 0 ((\<lambda>x. 0)(0 := 1, 1 := - (1 / 2 ^ 60))) = - (1 / 2 ^ 60)
   \<and> \<bar>elem (Matrix 0 1 1) 0 0 ((\<lambda>x. 0)(0 := 1, 1 := - (1 / 2 ^ 60)))
        - elem (Matrix 1 1 1) 0 0 ((\<lambda>x. 0)(0 := 1, 1 := - (1 / 2 ^ 60)))\<bar> > 1
   \<and> isDiff (Matrix 0 1 1) (Matrix 1 1 1) 1 ((\<lambda>x. 0)(0 := 1, 1 := - (1 / 2 ^ 60)))
       = Inr False"
proof -
  have d: "is_double 1" "is_double (- (1 / 2 ^ 60))"
    by (simp_all add: is_double_def round_double_def ilog2_def round_even_def Let_def
                      power_int_minus compute_bitlen)
  have r: "round_double (1 + 1 / 2 ^ 60) = 1"
    by (simp add: round_double_def ilog2_def round_even_def Let_def power_int_minus
                  compute_bitlen)
  have "isDiff (Matrix 0 1 1) (Matrix 1 1 1) 1 ((\<lambda>x. 0)(0 := 1, 1 := - (1 / 2 ^ 60)))
        = Inr False"
    using r
    by (simp add: isDiff_def Matrix_def isDiff_cols.simps isDiff_col.simps double_sub_def)
  with d show ?thesis
    by (simp add: elem_def addr_def Matrix_def)
qed

section \<open>Element-wise operations on a view\<close>

subsection \<open>One operand\<close>

lemma unary_col_result:
  "unary_col f pp e h = (\<lambda>x. if pp \<le> x \<and> x < e then f (h x) else h x)"
proof (induction f pp e h rule: unary_col.induct)
  case (1 f pp e h)
  show ?case
  proof (cases "pp < e")
    case False
    then show ?thesis by (subst unary_col.simps) auto
  next
    case True
    have "unary_col f (pp + 1) e (h(pp := f (h pp)))
          = (\<lambda>x. if pp \<le> x \<and> x < e then f (h x) else h x)"
      unfolding "1.IH" [OF True] using True by (intro ext) auto
    with True show ?thesis by (subst unary_col.simps) simp
  qed
qed

lemma unary_cols_result:
  assumes "0 < stride \<or> e \<le> p" and "r \<le> stride \<or> e \<le> p"
  shows "unary_cols f p e r stride h
         = Inr (\<lambda>x. if x \<in> visited p e stride r then f (h x) else h x)"
  using assms
proof (induction f p e r stride h rule: unary_cols.induct)
  case (1 f p e r stride h)
  show ?case
  proof (cases "p < e")
    case False
    then show ?thesis by (subst unary_cols.simps) (simp add: visited_done)
  next
    case True
    with "1.prems" have pos: "0 < stride" and r: "r \<le> stride" by simp_all
    let ?h1 = "unary_col f p (p + r) h"
    have ih: "unary_cols f (p + stride) e r stride ?h1
              = Inr (\<lambda>x. if x \<in> visited (p + stride) e stride r then f (?h1 x) else ?h1 x)"
      using "1.IH" [OF True] pos r by simp
    have "(\<lambda>x. if x \<in> visited (p + stride) e stride r then f (?h1 x) else ?h1 x)
          = (\<lambda>x. if x \<in> visited p e stride r then f (h x) else h x)"
    proof (rule ext)
      fix x
      show "(if x \<in> visited (p + stride) e stride r then f (?h1 x) else ?h1 x)
            = (if x \<in> visited p e stride r then f (h x) else h x)"
      proof (cases "x \<in> visited (p + stride) e stride r")
        case v: True
        then have "p + stride \<le> x" by (rule visited_ge)
        with r have "?h1 x = h x" by (simp add: unary_col_result)
        with v show ?thesis by (simp add: visited_step [OF True])
      next
        case v: False
        then show ?thesis by (simp add: visited_step [OF True] unary_col_result)
      qed
    qed
    with ih True pos show ?thesis by (subst unary_cols.simps) simp
  qed
qed

lemma unary_matrix_result:
  assumes "columns_apart m"
  shows "unary_cols f (getData m) (getData m + getCols m * getLd m) (getRows m) (getLd m) h
         = Inr (\<lambda>x. if x \<in> in_view m then f (h x) else h x)"
proof (cases "0 < getLd m")
  case True
  then have "unary_cols f (getData m) (getData m + getCols m * getLd m) (getRows m) (getLd m) h
         = Inr (\<lambda>x. if x \<in> visited (getData m) (getData m + getCols m * getLd m) (getLd m)
                                   (getRows m) then f (h x) else h x)"
    using assms by (intro unary_cols_result) (simp_all add: columns_apart_def)
  then show ?thesis using True by (simp add: visited_in_view)
next
  case False
  then have z: "getLd m = 0" "getRows m = 0" using assms by (simp_all add: columns_apart_def)
  then have "in_view m = {}" by (simp add: in_view_def view_addrs_def)
  with z show ?thesis by (subst unary_cols.simps) simp
qed

subsection \<open>Two operands\<close>

lemma binary_col_frame:
  "x < pp1 \<or> e \<le> x \<Longrightarrow> binary_col f pp1 pp2 e h x = h x"
proof (induction f pp1 pp2 e h rule: binary_col.induct)
  case (1 f pp1 pp2 e h)
  show ?case
  proof (cases "pp1 < e")
    case False
    then show ?thesis by (subst binary_col.simps) simp
  next
    case True
    have "binary_col f (pp1 + 1) (pp2 + 1) e (h(pp1 := f (h pp1) (h pp2))) x
          = (h(pp1 := f (h pp1) (h pp2))) x"
      using "1.prems" by (intro "1.IH" [OF True]) auto
    also have "\<dots> = h x" using "1.prems" True by auto
    finally show ?thesis using True by (subst binary_col.simps) simp
  qed
qed

lemma binary_col_value:
  assumes "\<forall>i i'. pp1 + i < e \<and> pp1 + i' < e \<longrightarrow> pp2 + i \<noteq> pp1 + i'" and "pp1 + i < e"
  shows "binary_col f pp1 pp2 e h (pp1 + i) = f (h (pp1 + i)) (h (pp2 + i))"
  using assms
proof (induction f pp1 pp2 e h arbitrary: i rule: binary_col.induct)
  case (1 f pp1 pp2 e h)
  from "1.prems"(2) have lt: "pp1 < e" by simp
  let ?h1 = "h(pp1 := f (h pp1) (h pp2))"
  have unf: "binary_col f pp1 pp2 e h = binary_col f (pp1 + 1) (pp2 + 1) e ?h1"
    using lt by (subst binary_col.simps) simp
  show ?case
  proof (cases i)
    case 0
    have "binary_col f (pp1 + 1) (pp2 + 1) e ?h1 pp1 = ?h1 pp1"
      by (rule binary_col_frame) simp
    then show ?thesis unfolding unf 0 by simp
  next
    case (Suc i')
    have d: "\<forall>i i'. pp1 + 1 + i < e \<and> pp1 + 1 + i' < e \<longrightarrow> pp2 + 1 + i \<noteq> pp1 + 1 + i'"
    proof (intro allI impI)
      fix a b assume "pp1 + 1 + a < e \<and> pp1 + 1 + b < e"
      then have "pp1 + Suc a < e \<and> pp1 + Suc b < e" by simp
      with "1.prems"(1) have "pp2 + Suc a \<noteq> pp1 + Suc b" by blast
      then show "pp2 + 1 + a \<noteq> pp1 + 1 + b" by simp
    qed
    have i': "pp1 + 1 + i' < e" using "1.prems"(2) Suc by simp
    have "binary_col f (pp1 + 1) (pp2 + 1) e ?h1 (pp1 + 1 + i')
          = f (?h1 (pp1 + 1 + i')) (?h1 (pp2 + 1 + i'))"
      by (rule "1.IH" [OF lt d i'])
    moreover have "pp2 + Suc i' \<noteq> pp1 + 0"
      using "1.prems"(1) "1.prems"(2) Suc lt by (metis add.right_neutral)
    ultimately show ?thesis unfolding unf Suc by simp
  qed
qed

lemma binary_cols_frame:
  assumes "0 < ld1 \<or> e \<le> p1"
  shows "\<exists>h'. binary_cols f p1 p2 e r ld1 ld2 h = Inr h'
              \<and> (\<forall>x. x \<notin> visited p1 e ld1 r \<longrightarrow> h' x = h x)"
  using assms
proof (induction f p1 p2 e r ld1 ld2 h rule: binary_cols.induct)
  case (1 f p1 p2 e r ld1 ld2 h)
  show ?case
  proof (cases "p1 < e")
    case False
    then show ?thesis by (subst binary_cols.simps) simp
  next
    case True
    with "1.prems" have pos: "0 < ld1" by simp
    let ?h1 = "binary_col f p1 p2 (p1 + r) h"
    from "1.IH" [OF True] pos obtain h' where
      r: "binary_cols f (p1 + ld1) (p2 + ld2) e r ld1 ld2 ?h1 = Inr h'"
      and fr: "\<forall>x. x \<notin> visited (p1 + ld1) e ld1 r \<longrightarrow> h' x = ?h1 x"
      by auto
    have "h' x = h x" if "x \<notin> visited p1 e ld1 r" for x
    proof -
      from that have a: "x \<notin> visited (p1 + ld1) e ld1 r" and b: "x < p1 \<or> p1 + r \<le> x"
        by (auto simp: visited_step [OF True])
      from a fr have "h' x = ?h1 x" by blast
      also from b have "\<dots> = h x" by (rule binary_col_frame)
      finally show ?thesis .
    qed
    with r True pos show ?thesis by (subst binary_cols.simps) simp
  qed
qed

lemma binary_cols_value:
  assumes "0 < ld1 \<or> e \<le> p1" and "r \<le> ld1 \<or> e \<le> p1"
    and "\<forall>k i k' i'. p1 + k * ld1 < e \<and> i < r \<and> p1 + k' * ld1 < e \<and> i' < r
                     \<longrightarrow> p2 + k * ld2 + i \<noteq> p1 + k' * ld1 + i'"
    and "binary_cols f p1 p2 e r ld1 ld2 h = Inr h'"
    and "p1 + k * ld1 < e" and "i < r"
  shows "h' (p1 + k * ld1 + i) = f (h (p1 + k * ld1 + i)) (h (p2 + k * ld2 + i))"
  using assms
proof (induction f p1 p2 e r ld1 ld2 h arbitrary: k rule: binary_cols.induct)
  case (1 f p1 p2 e r ld1 ld2 h)
  from "1.prems"(5) have lt: "p1 < e" by (meson le_add1 le_less_trans)
  with "1.prems" have pos: "0 < ld1" and rl: "r \<le> ld1" by simp_all
  note disj = "1.prems"(3)
  let ?h1 = "binary_col f p1 p2 (p1 + r) h"
  have res: "binary_cols f (p1 + ld1) (p2 + ld2) e r ld1 ld2 ?h1 = Inr h'"
    using "1.prems"(4) lt pos by (subst (asm) binary_cols.simps) simp
  have d0: "p2 + a \<noteq> p1 + b" if "a < r" "b < r" for a b
    using disj [rule_format, of 0 a 0 b] lt that by simp
  have col0: "?h1 (p1 + a) = f (h (p1 + a)) (h (p2 + a))" if "a < r" for a
    using that d0 by (intro binary_col_value) auto
  have outside: "?h1 x = h x" if "x < p1 \<or> p1 + r \<le> x" for x
    using that by (rule binary_col_frame)
  show ?case
  proof (cases k)
    case 0
    have "p1 + i \<notin> visited (p1 + ld1) e ld1 r"
      using visited_ge [of "p1 + i" "p1 + ld1" e ld1 r] "1.prems"(6) rl by auto
    moreover from binary_cols_frame [of ld1 e "p1 + ld1" f "p2 + ld2" r ld2 ?h1] pos res
    have "\<forall>x. x \<notin> visited (p1 + ld1) e ld1 r \<longrightarrow> h' x = ?h1 x" by simp
    ultimately have "h' (p1 + i) = ?h1 (p1 + i)" by blast
    with col0 [OF "1.prems"(6)] show ?thesis unfolding 0 by simp
  next
    case (Suc k')
    have d': "\<forall>k i k' i'. p1 + ld1 + k * ld1 < e \<and> i < r \<and> p1 + ld1 + k' * ld1 < e \<and> i' < r
                     \<longrightarrow> p2 + ld2 + k * ld2 + i \<noteq> p1 + ld1 + k' * ld1 + i'"
    proof (intro allI impI)
      fix a ia b ib
      assume "p1 + ld1 + a * ld1 < e \<and> ia < r \<and> p1 + ld1 + b * ld1 < e \<and> ib < r"
      then have "p1 + Suc a * ld1 < e \<and> ia < r \<and> p1 + Suc b * ld1 < e \<and> ib < r"
        by (simp add: add.assoc)
      with disj have "p2 + Suc a * ld2 + ia \<noteq> p1 + Suc b * ld1 + ib" by blast
      then show "p2 + ld2 + a * ld2 + ia \<noteq> p1 + ld1 + b * ld1 + ib" by (simp add: add.assoc)
    qed
    have k': "p1 + ld1 + k' * ld1 < e" using "1.prems"(5) Suc by (simp add: add.assoc)
    have "h' (p1 + ld1 + k' * ld1 + i)
          = f (?h1 (p1 + ld1 + k' * ld1 + i)) (?h1 (p2 + ld2 + k' * ld2 + i))"
      using "1.IH" [OF lt _ _ _ d' res k' "1.prems"(6)] pos rl by simp
    moreover have "?h1 (p1 + ld1 + k' * ld1 + i) = h (p1 + ld1 + k' * ld1 + i)"
      using rl by (intro outside) simp
    moreover have "?h1 (p2 + ld2 + k' * ld2 + i) = h (p2 + ld2 + k' * ld2 + i)"
    proof (rule outside, rule ccontr)
      assume "\<not> (p2 + ld2 + k' * ld2 + i < p1 \<or> p1 + r \<le> p2 + ld2 + k' * ld2 + i)"
      then obtain b where b: "b < r" "p2 + ld2 + k' * ld2 + i = p1 + b"
        by (metis le_add_diff_inverse less_diff_conv2 not_le_imp_less add.commute)
      have "p2 + Suc k' * ld2 + i \<noteq> p1 + 0 * ld1 + b"
        using disj [rule_format, of "Suc k'" i 0 b] "1.prems"(5,6) Suc lt b(1) by simp
      with b(2) show False by (simp add: add.assoc)
    qed
    ultimately show ?thesis unfolding Suc by (simp add: add.assoc)
  qed
qed

subsection \<open>The norm\<close>

lemma Max_insert_insert:
  fixes a b :: real
  assumes "finite S"
  shows "Max (insert a (insert b S)) = Max (insert (max a b) S)"
proof (cases "S = {}")
  case True
  then show ?thesis by (simp add: max.commute)
next
  case False
  with assms show ?thesis by (simp add: max.assoc)
qed

lemma Max_insert_Max:
  fixes a :: real
  assumes "finite A" and "finite B"
  shows "Max (insert (Max (insert a A)) B) = Max (insert a (A \<union> B))"
proof (rule Max_eqI)
  show "finite (insert (Max (insert a A)) B)" using assms by simp
  have fin: "finite (insert a (A \<union> B))" "finite (insert a A)" using assms by simp_all
  have le: "Max (insert a A) \<le> Max (insert a (A \<union> B))"
    using fin by (intro Max_mono) auto
  show "y \<le> Max (insert a (A \<union> B))" if "y \<in> insert (Max (insert a A)) B" for y
  proof (cases "y \<in> B")
    case True
    then show ?thesis using fin(1) by (intro Max_ge) auto
  next
    case False
    with that le show ?thesis by simp
  qed
  have "Max (insert a (A \<union> B)) \<in> insert a (A \<union> B)"
    using fin(1) by (intro Max_in) auto
  then consider "Max (insert a (A \<union> B)) \<in> B" | "Max (insert a (A \<union> B)) \<in> insert a A"
    by auto
  then show "Max (insert a (A \<union> B)) \<in> insert (Max (insert a A)) B"
  proof cases
    case 1
    then show ?thesis by simp
  next
    case 2
    then have "Max (insert a (A \<union> B)) \<le> Max (insert a A)"
      using fin(2) by (intro Max_ge)
    with le show ?thesis by simp
  qed
qed

lemma nrminf_col_eq:
  "nrminf_col pp e nrm h = Max (insert nrm ((\<lambda>x. \<bar>h x\<bar>) ` {pp..<e}))"
proof (induction pp e nrm h rule: nrminf_col.induct)
  case (1 pp e nrm h)
  show ?case
  proof (cases "pp < e")
    case False
    then show ?thesis by (subst nrminf_col.simps) simp
  next
    case True
    have "{pp..<e} = insert pp {pp + 1..<e}" using True by auto
    then have split: "(\<lambda>x. \<bar>h x\<bar>) ` {pp..<e} = insert \<bar>h pp\<bar> ((\<lambda>x. \<bar>h x\<bar>) ` {pp + 1..<e})"
      by (simp only: image_insert)
    have m: "(if \<bar>h pp\<bar> > nrm then \<bar>h pp\<bar> else nrm) = max nrm \<bar>h pp\<bar>" by (simp add: max_def)
    have "nrminf_col pp e nrm h = nrminf_col (pp + 1) e (max nrm \<bar>h pp\<bar>) h"
      using True by (subst nrminf_col.simps) (simp only: if_True m)
    also have "\<dots> = Max (insert (max nrm \<bar>h pp\<bar>) ((\<lambda>x. \<bar>h x\<bar>) ` {pp + 1..<e}))"
      using "1.IH" [OF True] unfolding m .
    also have "\<dots> = Max (insert nrm (insert \<bar>h pp\<bar> ((\<lambda>x. \<bar>h x\<bar>) ` {pp + 1..<e})))"
      by (rule Max_insert_insert [symmetric]) simp
    also have "\<dots> = Max (insert nrm ((\<lambda>x. \<bar>h x\<bar>) ` {pp..<e}))"
      by (simp only: split)
    finally show ?thesis .
  qed
qed

lemma nrminf_cols_eq:
  assumes "0 < stride \<or> e \<le> p"
  shows "nrminf_cols p e r stride nrm h
         = Inr (Max (insert nrm ((\<lambda>x. \<bar>h x\<bar>) ` visited p e stride r)))"
  using assms
proof (induction p e r stride nrm h rule: nrminf_cols.induct)
  case (1 p e r stride nrm h)
  show ?case
  proof (cases "p < e")
    case False
    then show ?thesis by (subst nrminf_cols.simps) (simp add: visited_done)
  next
    case True
    with "1.prems" have pos: "0 < stride" by simp
    let ?n1 = "nrminf_col p (p + r) nrm h"
    have "nrminf_cols p e r stride nrm h
          = Inr (Max (insert ?n1 ((\<lambda>x. \<bar>h x\<bar>) ` visited (p + stride) e stride r)))"
      using True pos "1.IH" [OF True] by (subst nrminf_cols.simps) simp
    also have "Max (insert ?n1 ((\<lambda>x. \<bar>h x\<bar>) ` visited (p + stride) e stride r))
               = Max (insert nrm ((\<lambda>x. \<bar>h x\<bar>) ` {p..<p + r}
                                  \<union> (\<lambda>x. \<bar>h x\<bar>) ` visited (p + stride) e stride r))"
      unfolding nrminf_col_eq by (rule Max_insert_Max) (simp_all add: finite_visited)
    also have "(\<lambda>x. \<bar>h x\<bar>) ` {p..<p + r} \<union> (\<lambda>x. \<bar>h x\<bar>) ` visited (p + stride) e stride r
               = (\<lambda>x. \<bar>h x\<bar>) ` visited p e stride r"
      by (simp add: visited_step [OF True] image_Un)
    finally show ?thesis .
  qed
qed

lemma Max_insert_zero_abs:
  assumes "finite A" and "A \<noteq> {}"
  shows "Max (insert 0 ((\<lambda>x. \<bar>h x\<bar>) ` A)) = Max ((\<lambda>x. \<bar>h x :: real\<bar>) ` A)"
proof -
  have "Max ((\<lambda>x. \<bar>h x\<bar>) ` A) \<in> (\<lambda>x. \<bar>h x\<bar>) ` A"
    using assms by (intro Max_in) simp_all
  then have "0 \<le> Max ((\<lambda>x. \<bar>h x\<bar>) ` A)" by auto
  then show ?thesis using assms by (simp add: max_def)
qed

lemma nrminf_result:
  assumes "columns_apart m"
  shows "nrminf m h = Inr (Max (insert 0 ((\<lambda>x. \<bar>h x\<bar>) ` in_view m)))"
proof (cases "0 < getLd m")
  case True
  then show ?thesis by (simp add: nrminf_def nrminf_cols_eq visited_in_view)
next
  case False
  then have z: "getLd m = 0" "getRows m = 0" using assms by (simp_all add: columns_apart_def)
  then have "in_view m = {}" by (simp add: in_view_def view_addrs_def)
  with z show ?thesis by (simp add: nrminf_def nrminf_cols_eq visited_done)
qed

subsection \<open>What the two-operand loops read\<close>

lemma binary_col_depends:
  assumes "\<forall>i. pp1 + i < e \<longrightarrow> h (pp1 + i) = g (pp1 + i) \<and> h (pp2 + i) = g (pp2 + i)"
    and "pp1 + i < e"
  shows "binary_col f pp1 pp2 e h (pp1 + i) = binary_col f pp1 pp2 e g (pp1 + i)"
  using assms
proof (induction f pp1 pp2 e h arbitrary: g i rule: binary_col.induct)
  case (1 f pp1 pp2 e h)
  from "1.prems"(2) have lt: "pp1 < e" by simp
  let ?h1 = "h(pp1 := f (h pp1) (h pp2))" and ?g1 = "g(pp1 := f (g pp1) (g pp2))"
  have unf: "binary_col f pp1 pp2 e h = binary_col f (pp1 + 1) (pp2 + 1) e ?h1"
    "binary_col f pp1 pp2 e g = binary_col f (pp1 + 1) (pp2 + 1) e ?g1"
    using lt by (subst binary_col.simps, simp)+
  have same0: "f (h pp1) (h pp2) = f (g pp1) (g pp2)"
    using "1.prems"(1) [rule_format, of 0] lt by simp
  have agree: "\<forall>i. pp1 + 1 + i < e \<longrightarrow> ?h1 (pp1 + 1 + i) = ?g1 (pp1 + 1 + i)
                                      \<and> ?h1 (pp2 + 1 + i) = ?g1 (pp2 + 1 + i)"
  proof (intro allI impI)
    fix a assume "pp1 + 1 + a < e"
    then have "pp1 + Suc a < e" by simp
    then have "h (pp1 + Suc a) = g (pp1 + Suc a)" "h (pp2 + Suc a) = g (pp2 + Suc a)"
      using "1.prems"(1) by blast+
    then show "?h1 (pp1 + 1 + a) = ?g1 (pp1 + 1 + a) \<and> ?h1 (pp2 + 1 + a) = ?g1 (pp2 + 1 + a)"
      using same0 by simp
  qed
  show ?case
  proof (cases i)
    case 0
    have "binary_col f (pp1 + 1) (pp2 + 1) e ?h1 pp1 = ?h1 pp1"
      "binary_col f (pp1 + 1) (pp2 + 1) e ?g1 pp1 = ?g1 pp1"
      by (rule binary_col_frame, simp)+
    then show ?thesis unfolding unf 0 using same0 by simp
  next
    case (Suc i')
    then have "pp1 + 1 + i' < e" using "1.prems"(2) by simp
    then have "binary_col f (pp1 + 1) (pp2 + 1) e ?h1 (pp1 + 1 + i')
               = binary_col f (pp1 + 1) (pp2 + 1) e ?g1 (pp1 + 1 + i')"
      by (rule "1.IH" [OF lt agree])
    moreover have "pp1 + Suc i' = pp1 + 1 + i'" by simp
    ultimately show ?thesis unfolding unf Suc by (simp only:)
  qed
qed

lemma binary_cols_depends:
  assumes "0 < ld1 \<or> e \<le> p1"
    and "\<forall>x\<in>visited p1 e ld1 r. h x = g x"
    and "\<forall>k i. p1 + k * ld1 < e \<and> i < r \<longrightarrow> h (p2 + k * ld2 + i) = g (p2 + k * ld2 + i)"
    and "binary_cols f p1 p2 e r ld1 ld2 h = Inr h'"
    and "binary_cols f p1 p2 e r ld1 ld2 g = Inr g'"
  shows "\<forall>x\<in>visited p1 e ld1 r. h' x = g' x"
  using assms
proof (induction f p1 p2 e r ld1 ld2 h arbitrary: g rule: binary_cols.induct)
  case (1 f p1 p2 e r ld1 ld2 h)
  show ?case
  proof (cases "p1 < e")
    case False
    then show ?thesis by (simp add: visited_done)
  next
    case True
    with "1.prems" have pos: "0 < ld1" by simp
    let ?h1 = "binary_col f p1 p2 (p1 + r) h" and ?g1 = "binary_col f p1 p2 (p1 + r) g"
    have resh: "binary_cols f (p1 + ld1) (p2 + ld2) e r ld1 ld2 ?h1 = Inr h'"
      using "1.prems"(4) True pos by (subst (asm) binary_cols.simps) simp
    have resg: "binary_cols f (p1 + ld1) (p2 + ld2) e r ld1 ld2 ?g1 = Inr g'"
      using "1.prems"(5) True pos by (subst (asm) binary_cols.simps) simp
    have col0: "?h1 (p1 + i) = ?g1 (p1 + i)" if "i < r" for i
    proof (rule binary_col_depends)
      show "p1 + i < p1 + r" using that by simp
      show "\<forall>i. p1 + i < p1 + r \<longrightarrow> h (p1 + i) = g (p1 + i) \<and> h (p2 + i) = g (p2 + i)"
      proof (intro allI impI)
        fix a assume "p1 + a < p1 + r"
        then have a: "a < r" by simp
        then have "p1 + a \<in> visited p1 e ld1 r"
          using True by (simp add: visited_step)
        moreover have "h (p2 + 0 * ld2 + a) = g (p2 + 0 * ld2 + a)"
          using "1.prems"(3) a True by (intro "1.prems"(3) [rule_format]) simp
        ultimately show "h (p1 + a) = g (p1 + a) \<and> h (p2 + a) = g (p2 + a)"
          using "1.prems"(2) by simp
      qed
    qed
    have keep: "?h1 x = ?g1 x" if "h x = g x" for x
    proof (cases "p1 \<le> x \<and> x < p1 + r")
      case True
      then have "x - p1 < r" "x = p1 + (x - p1)" by auto
      then show ?thesis using col0 [of "x - p1"] by simp
    next
      case False
      then have "?h1 x = h x" "?g1 x = g x" by (auto intro: binary_col_frame)
      with that show ?thesis by simp
    qed
    have a1: "\<forall>x\<in>visited (p1 + ld1) e ld1 r. ?h1 x = ?g1 x"
      using "1.prems"(2) keep by (simp add: visited_step [OF True])
    have a2: "\<forall>k i. p1 + ld1 + k * ld1 < e \<and> i < r
                    \<longrightarrow> ?h1 (p2 + ld2 + k * ld2 + i) = ?g1 (p2 + ld2 + k * ld2 + i)"
    proof (intro allI impI)
      fix k i assume "p1 + ld1 + k * ld1 < e \<and> i < r"
      then have "p1 + Suc k * ld1 < e \<and> i < r" by (simp add: add.assoc)
      then have "h (p2 + Suc k * ld2 + i) = g (p2 + Suc k * ld2 + i)"
        using "1.prems"(3) by blast
      then have "h (p2 + ld2 + k * ld2 + i) = g (p2 + ld2 + k * ld2 + i)"
        by (simp add: add.assoc)
      then show "?h1 (p2 + ld2 + k * ld2 + i) = ?g1 (p2 + ld2 + k * ld2 + i)"
        by (rule keep)
    qed
    have later: "\<forall>x\<in>visited (p1 + ld1) e ld1 r. h' x = g' x"
      using "1.IH" [OF True _ _ a1 a2 resh resg] pos by simp
    have frh: "\<forall>x. x \<notin> visited (p1 + ld1) e ld1 r \<longrightarrow> h' x = ?h1 x"
      using binary_cols_frame [of ld1 e "p1 + ld1" f "p2 + ld2" r ld2 ?h1] pos resh by simp
    have frg: "\<forall>x. x \<notin> visited (p1 + ld1) e ld1 r \<longrightarrow> g' x = ?g1 x"
      using binary_cols_frame [of ld1 e "p1 + ld1" f "p2 + ld2" r ld2 ?g1] pos resg by simp
    show ?thesis
    proof
      fix x assume x: "x \<in> visited p1 e ld1 r"
      show "h' x = g' x"
      proof (cases "x \<in> visited (p1 + ld1) e ld1 r")
        case True
        with later show ?thesis by blast
      next
        case False
        with x have "h x = g x" using "1.prems"(2) by blast
        then have "?h1 x = ?g1 x" by (rule keep)
        with False frh frg show ?thesis by simp
      qed
    qed
  qed
qed

lemma binary_matrix:
  assumes apart: "columns_apart m1"
    and dims: "getRows m1 = getRows m2" "getCols m1 = getCols m2"
  shows "\<exists>h'. binary_cols f (getData m1) (getData m2) (getData m1 + getCols m1 * getLd m1)
                 (getRows m1) (getLd m1) (getLd m2) h = Inr h'
           \<and> (\<forall>x. x \<notin> in_view m1 \<longrightarrow> h' x = h x)
           \<and> (\<forall>g. (\<forall>x\<in>in_view m1 \<union> in_view m2. g x = h x) \<longrightarrow>
                 (\<exists>g'. binary_cols f (getData m1) (getData m2)
                          (getData m1 + getCols m1 * getLd m1)
                          (getRows m1) (getLd m1) (getLd m2) g = Inr g'
                       \<and> (\<forall>x\<in>in_view m1. g' x = h' x)))
           \<and> (in_view m1 \<inter> in_view m2 = {} \<longrightarrow>
                 (\<forall>i<getRows m1. \<forall>j<getCols m1.
                    h' (addr m1 i j) = f (h (addr m1 i j)) (h (addr m2 i j))))"
proof -
  let ?d1 = "getData m1" and ?d2 = "getData m2" and ?l1 = "getLd m1" and ?l2 = "getLd m2"
  let ?r = "getRows m1" and ?c = "getCols m1"
  let ?e = "?d1 + ?c * ?l1"
  let ?op = "binary_cols f ?d1 ?d2 ?e ?r ?l1 ?l2"
  have pre: "0 < ?l1 \<or> ?e \<le> ?d1" by auto
  have pre2: "?r \<le> ?l1 \<or> ?e \<le> ?d1" using apart by (simp add: columns_apart_def)
  have vis: "visited ?d1 ?e ?l1 ?r = in_view m1"
  proof (cases "0 < ?l1")
    case True
    then show ?thesis by (simp add: visited_in_view)
  next
    case False
    then have "?l1 = 0" "?r = 0" using apart by (simp_all add: columns_apart_def)
    then show ?thesis by (simp add: visited_done in_view_def view_addrs_def)
  qed
  have col: "k < ?c" if "?d1 + k * ?l1 < ?e" for k
    using that by (cases "?l1 = 0") auto
  have src: "?d2 + k * ?l2 + i \<in> in_view m2" if "?d1 + k * ?l1 < ?e" "i < ?r" for k i
  proof -
    have "addr m2 i k \<in> in_view m2"
      using col [OF that(1)] that(2) dims by (intro in_viewI) simp_all
    moreover have "addr m2 i k = ?d2 + k * ?l2 + i" by (simp add: addr_def)
    ultimately show ?thesis by simp
  qed
  have dst: "?d1 + k * ?l1 + i \<in> in_view m1" if "?d1 + k * ?l1 < ?e" "i < ?r" for k i
  proof -
    have "addr m1 i k \<in> in_view m1"
      using col [OF that(1)] that(2) by (intro in_viewI) simp_all
    moreover have "addr m1 i k = ?d1 + k * ?l1 + i" by (simp add: addr_def)
    ultimately show ?thesis by simp
  qed
  from binary_cols_frame [OF pre, of f ?d2 ?r ?l2 h] obtain h' where
    res: "?op h = Inr h'" and frame: "\<forall>x. x \<notin> in_view m1 \<longrightarrow> h' x = h x"
    unfolding vis by blast
  have dep: "\<exists>g'. ?op g = Inr g' \<and> (\<forall>x\<in>in_view m1. g' x = h' x)"
    if g: "\<forall>x\<in>in_view m1 \<union> in_view m2. g x = h x" for g
  proof -
    from binary_cols_frame [OF pre, of f ?d2 ?r ?l2 g] obtain g' where resg: "?op g = Inr g'"
      by blast
    have "\<forall>x\<in>visited ?d1 ?e ?l1 ?r. g' x = h' x"
    proof (rule binary_cols_depends [OF pre _ _ resg res])
      show "\<forall>x\<in>visited ?d1 ?e ?l1 ?r. g x = h x" using g unfolding vis by blast
      show "\<forall>k i. ?d1 + k * ?l1 < ?e \<and> i < ?r \<longrightarrow> g (?d2 + k * ?l2 + i) = h (?d2 + k * ?l2 + i)"
        using g src by blast
    qed
    with resg show ?thesis unfolding vis by blast
  qed
  have vals: "\<forall>i<?r. \<forall>j<?c. h' (addr m1 i j) = f (h (addr m1 i j)) (h (addr m2 i j))"
    if disj: "in_view m1 \<inter> in_view m2 = {}"
  proof (intro allI impI)
    fix i j assume ij: "i < ?r" "j < ?c"
    then have "0 < ?l1" using apart by (simp add: columns_apart_def)
    with ij have lt: "?d1 + j * ?l1 < ?e" by simp
    have d: "\<forall>k i k' i'. ?d1 + k * ?l1 < ?e \<and> i < ?r \<and> ?d1 + k' * ?l1 < ?e \<and> i' < ?r
                     \<longrightarrow> ?d2 + k * ?l2 + i \<noteq> ?d1 + k' * ?l1 + i'"
      using src dst disj by (metis disjoint_iff)
    have "h' (?d1 + j * ?l1 + i) = f (h (?d1 + j * ?l1 + i)) (h (?d2 + j * ?l2 + i))"
      using pre pre2 d res lt ij(1) by (rule binary_cols_value)
    moreover have "addr m1 i j = ?d1 + j * ?l1 + i" "addr m2 i j = ?d2 + j * ?l2 + i"
      by (simp_all add: addr_def)
    ultimately show "h' (addr m1 i j) = f (h (addr m1 i j)) (h (addr m2 i j))"
      by simp
  qed
  from res frame dep vals show ?thesis by blast
qed

text \<open>
  C10. Let the columns of \<open>m1\<close> be apart (an owning matrix, or a view with \<open>ld\<close> greater
  than or equal to \<open>rows\<close>). The one-operand operations return the store in which
  exactly the in-view elements have been updated (\<open>+ d\<close>, \<open>+ -1.0 * d\<close>, which is \<open>- d\<close>
  for a double \<open>d\<close>, negated; the sums, the product and the difference are those of
  doubles) and every other address, the padding between the columns of a view
  included, is as before;
  \<open>nrminf\<close> returns the largest absolute value among the in-view elements (0 for an
  empty matrix), whatever the padding holds; the in-view addresses are \<open>rows * cols\<close>
  many. For \<open>m2\<close> of the same dimensions, \<open>add(m1, m2)\<close> and \<open>sub(m1, m2)\<close> return,
  change no address outside the view of \<open>m1\<close>, give the same in-view result from any
  store that agrees on the in-view elements of \<open>m1\<close> and \<open>m2\<close> (nothing else is
  read), and when the two matrices share no element, each element of \<open>m1\<close> becomes its
  sum (difference) in doubles with the corresponding element of \<open>m2\<close>.
\<close>

theorem elementwise_in_view_only:
  assumes "columns_apart m1"
  shows "add_scalar m1 d h = Inr (\<lambda>x. if x \<in> in_view m1 then double_add (h x) d else h x)
       \<and> sub_scalar m1 d h
           = Inr (\<lambda>x. if x \<in> in_view m1 then double_add (h x) (double_mul (- 1) d) else h x)
       \<and> (is_double d \<longrightarrow>
            sub_scalar m1 d h = Inr (\<lambda>x. if x \<in> in_view m1 then double_sub (h x) d else h x))
       \<and> negate m1 h = Inr (\<lambda>x. if x \<in> in_view m1 then - h x else h x)
       \<and> nrminf m1 h = Inr (Max (insert 0 ((\<lambda>x. \<bar>h x\<bar>) ` in_view m1)))
       \<and> (in_view m1 \<noteq> {} \<longrightarrow> nrminf m1 h = Inr (Max ((\<lambda>x. \<bar>h x\<bar>) ` in_view m1)))
       \<and> card (in_view m1) = getRows m1 * getCols m1
       \<and> (getRows m1 = getRows m2 \<and> getCols m1 = getCols m2 \<longrightarrow>
            (\<exists>ha hs. add m1 m2 h = Inr ha \<and> sub m1 m2 h = Inr hs
               \<and> (\<forall>x. x \<notin> in_view m1 \<longrightarrow> ha x = h x \<and> hs x = h x)
               \<and> (\<forall>g. (\<forall>x\<in>in_view m1 \<union> in_view m2. g x = h x) \<longrightarrow>
                     (\<exists>ga gs. add m1 m2 g = Inr ga \<and> sub m1 m2 g = Inr gs
                        \<and> (\<forall>x\<in>in_view m1. ga x = ha x \<and> gs x = hs x)))
               \<and> (in_view m1 \<inter> in_view m2 = {} \<longrightarrow>
                     (\<forall>i<getRows m1. \<forall>j<getCols m1.
                        elem m1 i j ha = double_add (elem m1 i j h) (elem m2 i j h)
                        \<and> elem m1 i j hs = double_sub (elem m1 i j h) (elem m2 i j h)))))"
proof (intro conjI impI)
  show "add_scalar m1 d h = Inr (\<lambda>x. if x \<in> in_view m1 then double_add (h x) d else h x)"
    using assms by (simp add: add_scalar_def unary_matrix_result)
  show "sub_scalar m1 d h
        = Inr (\<lambda>x. if x \<in> in_view m1 then double_add (h x) (double_mul (- 1) d) else h x)"
    using assms by (simp add: sub_scalar_def add_scalar_def unary_matrix_result)
  show "sub_scalar m1 d h = Inr (\<lambda>x. if x \<in> in_view m1 then double_sub (h x) d else h x)"
    if "is_double d"
    using assms that
    by (simp add: sub_scalar_def add_scalar_def unary_matrix_result double_add_negated)
  show "negate m1 h = Inr (\<lambda>x. if x \<in> in_view m1 then - h x else h x)"
    using assms by (simp add: negate_def unary_matrix_result)
  show "nrminf m1 h = Inr (Max (insert 0 ((\<lambda>x. \<bar>h x\<bar>) ` in_view m1)))"
    using assms by (rule nrminf_result)
  show "nrminf m1 h = Inr (Max ((\<lambda>x. \<bar>h x\<bar>) ` in_view m1))" if "in_view m1 \<noteq> {}"
  proof -
    have "finite (in_view m1)" by (simp add: in_view_def)
    then have "Max (insert 0 ((\<lambda>x. \<bar>h x\<bar>) ` in_view m1)) = Max ((\<lambda>x. \<bar>h x\<bar>) ` in_view m1)"
      using that by (rule Max_insert_zero_abs)
    with nrminf_result [OF assms, of h] show ?thesis by (simp only:)
  qed
  show "card (in_view m1) = getRows m1 * getCols m1"
    using assms by (rule card_in_view)
next
  assume dims: "getRows m1 = getRows m2 \<and> getCols m1 = getCols m2"
  then have d1: "getRows m1 = getRows m2" and d2: "getCols m1 = getCols m2" by simp_all
  from binary_matrix [OF assms d1 d2, of double_add h] obtain ha where
    a: "add m1 m2 h = Inr ha" "\<forall>x. x \<notin> in_view m1 \<longrightarrow> ha x = h x"
       "\<forall>g. (\<forall>x\<in>in_view m1 \<union> in_view m2. g x = h x) \<longrightarrow>
            (\<exists>ga. add m1 m2 g = Inr ga \<and> (\<forall>x\<in>in_view m1. ga x = ha x))"
       "in_view m1 \<inter> in_view m2 = {} \<longrightarrow>
          (\<forall>i<getRows m1. \<forall>j<getCols m1.
              elem m1 i j ha = double_add (elem m1 i j h) (elem m2 i j h))"
    unfolding add_def elem_def using dims by auto
  from binary_matrix [OF assms d1 d2, of double_sub h] obtain hs where
    s: "sub m1 m2 h = Inr hs" "\<forall>x. x \<notin> in_view m1 \<longrightarrow> hs x = h x"
       "\<forall>g. (\<forall>x\<in>in_view m1 \<union> in_view m2. g x = h x) \<longrightarrow>
            (\<exists>gs. sub m1 m2 g = Inr gs \<and> (\<forall>x\<in>in_view m1. gs x = hs x))"
       "in_view m1 \<inter> in_view m2 = {} \<longrightarrow>
          (\<forall>i<getRows m1. \<forall>j<getCols m1.
              elem m1 i j hs = double_sub (elem m1 i j h) (elem m2 i j h))"
    unfolding sub_def elem_def using dims by auto
  have "\<forall>g. (\<forall>x\<in>in_view m1 \<union> in_view m2. g x = h x) \<longrightarrow>
            (\<exists>ga gs. add m1 m2 g = Inr ga \<and> sub m1 m2 g = Inr gs
                \<and> (\<forall>x\<in>in_view m1. ga x = ha x \<and> gs x = hs x))"
    using a(3) s(3) by meson
  moreover have "in_view m1 \<inter> in_view m2 = {} \<longrightarrow>
                     (\<forall>i<getRows m1. \<forall>j<getCols m1.
                        elem m1 i j ha = double_add (elem m1 i j h) (elem m2 i j h)
                        \<and> elem m1 i j hs = double_sub (elem m1 i j h) (elem m2 i j h))"
    using a(4) s(4) by simp
  ultimately show "\<exists>ha hs. add m1 m2 h = Inr ha \<and> sub m1 m2 h = Inr hs
               \<and> (\<forall>x. x \<notin> in_view m1 \<longrightarrow> ha x = h x \<and> hs x = h x)
               \<and> (\<forall>g. (\<forall>x\<in>in_view m1 \<union> in_view m2. g x = h x) \<longrightarrow>
                     (\<exists>ga gs. add m1 m2 g = Inr ga \<and> sub m1 m2 g = Inr gs
                        \<and> (\<forall>x\<in>in_view m1. ga x = ha x \<and> gs x = hs x)))
               \<and> (in_view m1 \<inter> in_view m2 = {} \<longrightarrow>
                     (\<forall>i<getRows m1. \<forall>j<getCols m1.
                        elem m1 i j ha = double_add (elem m1 i j h) (elem m2 i j h)
                        \<and> elem m1 i j hs = double_sub (elem m1 i j h) (elem m2 i j h)))"
    using a(1,2) s(1,2) by blast
qed

theorem elementwise_in_view_only_witness:
  "columns_apart \<lparr>getData = 4, getRows = 2, getCols = 2, getLd = 3\<rparr>
   \<and> in_view \<lparr>getData = 4, getRows = 2, getCols = 2, getLd = 3\<rparr> = {4, 5, 7, 8}
   \<and> add_scalar \<lparr>getData = 4, getRows = 2, getCols = 2, getLd = 3\<rparr> 10 ((\<lambda>x. real x)(6 := 100))
       = Inr (\<lambda>x. if x \<in> {4, 5, 7, 8} then double_add (((\<lambda>x. real x)(6 := 100)) x) 10
                   else ((\<lambda>x. real x)(6 := 100)) x)
   \<and> is_double 10
   \<and> sub_scalar \<lparr>getData = 4, getRows = 2, getCols = 2, getLd = 3\<rparr> 10 ((\<lambda>x. real x)(6 := 100))
       = Inr (\<lambda>x. if x \<in> {4, 5, 7, 8} then double_sub (((\<lambda>x. real x)(6 := 100)) x) 10
                   else ((\<lambda>x. real x)(6 := 100)) x)
   \<and> negate \<lparr>getData = 4, getRows = 2, getCols = 2, getLd = 3\<rparr> ((\<lambda>x. real x)(6 := 100))
       = Inr (\<lambda>x. if x \<in> {4, 5, 7, 8} then - ((\<lambda>x. real x)(6 := 100)) x
                   else ((\<lambda>x. real x)(6 := 100)) x)
   \<and> nrminf \<lparr>getData = 4, getRows = 2, getCols = 2, getLd = 3\<rparr> ((\<lambda>x. real x)(6 := 100))
       = Inr 8
   \<and> (\<exists>ha hs. add \<lparr>getData = 4, getRows = 2, getCols = 2, getLd = 3\<rparr> (Matrix 20 2 2)
                   ((\<lambda>x. real x)(6 := 100)) = Inr ha
            \<and> sub \<lparr>getData = 4, getRows = 2, getCols = 2, getLd = 3\<rparr> (Matrix 20 2 2)
                   ((\<lambda>x. real x)(6 := 100)) = Inr hs
            \<and> ha 4 = 24 \<and> ha 8 = 31 \<and> ha 6 = 100 \<and> hs 5 = - 16 \<and> hs 6 = 100
            \<and> (\<exists>ga. add \<lparr>getData = 4, getRows = 2, getCols = 2, getLd = 3\<rparr> (Matrix 20 2 2)
                         ((\<lambda>x. real x)(6 := - 5, 9 := 0)) = Inr ga
                    \<and> ga 4 = 24 \<and> ga 8 = 31))"
proof -
  let ?V = "\<lparr>getData = 4, getRows = 2, getCols = 2, getLd = 3\<rparr>" and ?B = "Matrix 20 2 2"
  let ?h = "(\<lambda>x. real x)(6 := 100)"
  have apart: "columns_apart ?V" by (simp add: columns_apart_def)
  have vV: "in_view ?V = {4, 5, 7, 8}"
    by (simp add: in_view_def view_addrs_def addr_def upt_rec)
  have vB: "in_view ?B = {20, 21, 22, 23}"
    by (simp add: in_view_def view_addrs_def addr_def Matrix_def upt_rec)
  have disj: "in_view ?V \<inter> in_view ?B = {}" unfolding vV vB by simp
  have dims: "getRows ?V = getRows ?B \<and> getCols ?V = getCols ?B" by (simp add: Matrix_def)
  note t = elementwise_in_view_only [OF apart, of _ ?h ?B]
  have ten: "is_double 10"
    using round_double_of_int [of 10] by (simp add: is_double_def)
  have one: "add_scalar ?V 10 ?h
             = Inr (\<lambda>x. if x \<in> {4, 5, 7, 8} then double_add (?h x) 10 else ?h x)"
    "sub_scalar ?V 10 ?h
             = Inr (\<lambda>x. if x \<in> {4, 5, 7, 8} then double_sub (?h x) 10 else ?h x)"
    "negate ?V ?h = Inr (\<lambda>x. if x \<in> {4, 5, 7, 8} then - ?h x else ?h x)"
    using t [of 10] ten unfolding vV by blast+
  have "nrminf ?V ?h = Inr (Max (insert 0 ((\<lambda>x. \<bar>?h x\<bar>) ` {4, 5, 7, 8})))"
    using t [of 0] unfolding vV by blast
  then have nrm: "nrminf ?V ?h = Inr 8" by simp
  from t [of 0] dims disj obtain ha hs where
    r: "add ?V ?B ?h = Inr ha" "sub ?V ?B ?h = Inr hs"
    and f: "\<forall>x. x \<notin> in_view ?V \<longrightarrow> ha x = ?h x \<and> hs x = ?h x"
    and g: "\<forall>g. (\<forall>x\<in>in_view ?V \<union> in_view ?B. g x = ?h x) \<longrightarrow>
                     (\<exists>ga gs. add ?V ?B g = Inr ga \<and> sub ?V ?B g = Inr gs
                        \<and> (\<forall>x\<in>in_view ?V. ga x = ha x \<and> gs x = hs x))"
    and v: "\<forall>i<getRows ?V. \<forall>j<getCols ?V.
                        elem ?V i j ha = double_add (elem ?V i j ?h) (elem ?B i j ?h)
                        \<and> elem ?V i j hs = double_sub (elem ?V i j ?h) (elem ?B i j ?h)"
    by blast
  have rd: "round_double 24 = 24" "round_double 31 = 31" "round_double 16 = 16"
    using round_double_of_int [of 24] round_double_of_int [of 31] round_double_of_int [of 16]
    by simp_all
  have "ha 4 = 24" "ha 8 = 31" "hs 5 = - 16"
    using v [rule_format, of 0 0] v [rule_format, of 1 1] v [rule_format, of 1 0]
    by (simp_all add: elem_def addr_def Matrix_def double_add_def double_sub_def
                      round_double_minus rd)
  moreover have "ha 6 = 100" "hs 6 = 100"
    using f [rule_format, of 6] unfolding vV by simp_all
  moreover have "\<exists>ga. add ?V ?B ((\<lambda>x. real x)(6 := - 5, 9 := 0)) = Inr ga \<and> ga 4 = 24 \<and> ga 8 = 31"
  proof -
    have "\<forall>x\<in>in_view ?V \<union> in_view ?B. ((\<lambda>x. real x)(6 := - 5, 9 := 0)) x = ?h x"
      unfolding vV vB by simp
    with g obtain ga where ga: "add ?V ?B ((\<lambda>x. real x)(6 := - 5, 9 := 0)) = Inr ga"
      and same: "\<forall>x\<in>in_view ?V. ga x = ha x" by blast
    have "ga 4 = ha 4" "ga 8 = ha 8" using same unfolding vV by simp_all
    with ga \<open>ha 4 = 24\<close> \<open>ha 8 = 31\<close> show ?thesis by simp
  qed
  ultimately show ?thesis using apart vV ten one nrm r by blast
qed

end
